theory Spec2Isabelle
  imports Main "HOL-Library.Word" "HOL-Library.AList"
begin

section \<open>Goroutine-local storage: the data model\<close>

text \<open>
  This theory embeds \<^verbatim>\<open>id_pool.go\<close> and \<^verbatim>\<open>context.go\<close> of package \<^verbatim>\<open>gls\<close>.

  \<^item> \<^verbatim>\<open>uint32\<close> is \<open>32 word\<close>; Go's \<^verbatim>\<open>int\<close> (\<^verbatim>\<open>curMaxGoroutineCount\<close>) is an unbounded
    \<open>int\<close>, the conversion \<^verbatim>\<open>uint32(...)\<close> is written out as \<open>word_of_int\<close>.
  \<^item> \<^verbatim>\<open>interface{}\<close> values are \<open>'v iface\<close>: the nil interface or a value.
  \<^item> A Go map (\<^verbatim>\<open>Values\<close>, \<^verbatim>\<open>context\<close>) is an association list read with \<open>map_of\<close> and
    written with \<open>AList.update\<close> and \<open>AList.delete\<close>; \<^verbatim>\<open>len(m) == 0\<close> is \<open>m = []\<close>.
    A list of bindings handed to \<^verbatim>\<open>SetValues\<close> is a Go map when its keys are distinct.
  \<^item> Go maps are references. The per-goroutine \<^verbatim>\<open>Values\<close> maps of the context managers live
    in an explicit store \<open>cells\<close> (address to map) with an allocation counter, and
    \<^verbatim>\<open>m.values\<close> maps a goroutine id to an address.
  \<^item> A panic is the outcome \<open>Panics\<close>, carrying the state in which it was raised;
    deferred functions are applied to the state of either outcome.
  \<^item> Locks are not modelled: every function body below is one atomic step of the
    goroutine that runs it.
\<close>

type_synonym u32 = "32 word"

datatype 'v iface = IfaceNil | Iface 'v

type_synonym ('k, 'v) Values = "('k \<times> 'v iface) list"

type_synonym 'v "context" = "(string \<times> 'v iface) list"

datatype error = NotEnabled

datatype panic = UserPanic | NilMapWrite | IndexOutOfRange

datatype ('a, 's) result = Returns 'a 's | Panics panic 's

definition state_of :: "('a, 's) result \<Rightarrow> 's" where
  "state_of r = (case r of Returns a s \<Rightarrow> s | Panics p s \<Rightarrow> s)"

definition panic_of :: "('a, 's) result \<Rightarrow> panic option" where
  "panic_of r = (case r of Returns a s \<Rightarrow> None | Panics p s \<Rightarrow> Some p)"

definition deferred :: "('s \<Rightarrow> 's) \<Rightarrow> ('a, 's) result \<Rightarrow> ('a, 's) result" where
  "deferred d r = (case r of Returns a s \<Rightarrow> Returns a (d s) | Panics p s \<Rightarrow> Panics p (d s))"

subsection \<open>The identity pool (\<^verbatim>\<open>id_pool.go\<close>)\<close>

text \<open>
  The reuse queue is \<^verbatim>\<open>lockfree.Queue\<close>, a first-in first-out queue of an external library:
  \<open>Dequeue\<close> returns the oldest item, or nothing when the queue is empty.
\<close>

record idPool =
  queue :: "u32 list"
  curID :: u32

definition Dequeue :: "u32 list \<Rightarrow> u32 option \<times> u32 list" where
  "Dequeue q = (case q of [] \<Rightarrow> (None, []) | item # rest \<Rightarrow> (Some item, rest))"

definition Enqueue :: "u32 \<Rightarrow> u32 list \<Rightarrow> u32 list" where
  "Enqueue item q = q @ [item]"

definition newID :: "idPool \<Rightarrow> u32 \<times> idPool" where
  "newID p = (let curID' = curID p + 1 in (curID' - 1, p\<lparr>curID := curID'\<rparr>))"

definition Acquire :: "idPool \<Rightarrow> u32 \<times> idPool" where
  "Acquire p =
     (case Dequeue (queue p) of
        (Some item, q') \<Rightarrow> (item, p\<lparr>queue := q'\<rparr>)
      | (None, q') \<Rightarrow> newID (p\<lparr>queue := q'\<rparr>))"

definition Release :: "u32 \<Rightarrow> idPool \<Rightarrow> idPool" where
  "Release i p = p\<lparr>queue := Enqueue i (queue p)\<rparr>"

text \<open>The zero value of the counter with an empty queue.\<close>

definition zero_pool :: idPool where
  "zero_pool = \<lparr>queue = [], curID = 0\<rparr>"

text \<open>\<open>n\<close> successive calls of \<open>newID\<close>, with the ids they return.\<close>

fun newIDs :: "nat \<Rightarrow> idPool \<Rightarrow> u32 list \<times> idPool" where
  "newIDs 0 p = ([], p)"
| "newIDs (Suc n) p =
     (case newID p of (i, p1) \<Rightarrow> (case newIDs n p1 of (is, p2) \<Rightarrow> (i # is, p2)))"

text \<open>
  A schedule of pool operations as the callers' goroutines interleave them. \<open>Acquire_op\<close>
  is a whole call of \<open>Acquire\<close>; \<open>Acquire_miss_op\<close> is the second half of a call whose
  \<open>Dequeue\<close> found the queue empty before other goroutines ran: only \<open>newID\<close> is left to
  run. The run records the ids held by live callers (one entry per holder) and every id
  that \<open>Acquire\<close> has returned so far.
\<close>

datatype pool_op = Acquire_op | Acquire_miss_op | Release_op u32

record pool_run =
  pool_of :: idPool
  holders :: "u32 list"
  returned :: "u32 list"
  fresh :: nat

text \<open>Whether the operation reaches \<open>newID\<close>, and what it returns.\<close>

definition draws_fresh :: "pool_op \<Rightarrow> idPool \<Rightarrow> bool" where
  "draws_fresh op p = (op = Acquire_miss_op \<or> queue p = [])"

definition acquired :: "pool_op \<Rightarrow> idPool \<Rightarrow> u32 \<times> idPool" where
  "acquired op p = (if op = Acquire_miss_op then newID p else Acquire p)"

fun pool_step :: "pool_op \<Rightarrow> pool_run \<Rightarrow> pool_run" where
  "pool_step (Release_op i) r =
     r\<lparr>pool_of := Release i (pool_of r), holders := remove1 i (holders r)\<rparr>"
| "pool_step op r =
     (case acquired op (pool_of r) of
        (i, p') \<Rightarrow>
          r\<lparr>pool_of := p', holders := holders r @ [i], returned := returned r @ [i],
            fresh := (if draws_fresh op (pool_of r) then Suc (fresh r) else fresh r)\<rparr>)"

fun pool_exec :: "pool_op list \<Rightarrow> pool_run \<Rightarrow> pool_run" where
  "pool_exec [] r = r"
| "pool_exec (op # ops) r = pool_exec ops (pool_step op r)"

definition new_run :: pool_run where
  "new_run = \<lparr>pool_of = zero_pool, holders = [], returned = [], fresh = 0\<rparr>"

text \<open>The caller contract: \<open>Release\<close> is only called on an id that is held at that moment.\<close>

fun releases_held :: "pool_op list \<Rightarrow> pool_run \<Rightarrow> bool" where
  "releases_held [] r = True"
| "releases_held (Release_op i # ops) r =
     (i \<in> set (holders r) \<and> releases_held ops (pool_step (Release_op i) r))"
| "releases_held (op # ops) r = releases_held ops (pool_step op r)"

text \<open>
  The counter has room: whenever the schedule reaches \<open>newID\<close>, fewer than \<open>2 ^ 32\<close> fresh
  ids have been drawn.
\<close>

fun counter_has_room :: "pool_op list \<Rightarrow> pool_run \<Rightarrow> bool" where
  "counter_has_room [] r = True"
| "counter_has_room (Release_op i # ops) r = counter_has_room ops (pool_step (Release_op i) r)"
| "counter_has_room (op # ops) r =
     ((if draws_fresh op (pool_of r) then fresh r < 2 ^ 32 else True)
      \<and> counter_has_room ops (pool_step op r))"

text \<open>
  What an acquisition promises in run \<open>r\<close>: the id comes from the reuse queue and nobody
  holds it, or it is the counter's value before the increment and was never returned.
\<close>

definition acquires_well :: "pool_op \<Rightarrow> pool_run \<Rightarrow> bool" where
  "acquires_well op r =
     (let p = pool_of r; i = fst (acquired op p) in
        if draws_fresh op p
        then i = curID p \<and> i \<notin> set (returned r) \<and> i \<notin> set (holders r)
        else i = hd (queue p) \<and> i \<notin> set (holders r))"

text \<open>The safety property along a whole run: holders never share an id.\<close>

fun safe_run :: "pool_op list \<Rightarrow> pool_run \<Rightarrow> bool" where
  "safe_run [] r = distinct (holders r)"
| "safe_run (Release_op i # ops) r =
     (distinct (holders r) \<and> safe_run ops (pool_step (Release_op i) r))"
| "safe_run (op # ops) r =
     (distinct (holders r) \<and> acquires_well op r \<and> safe_run ops (pool_step op r))"

text \<open>
  The invariant of a run: holders and queued ids are pairwise different, every id in
  circulation was returned by an acquisition, and the counter is the number of fresh ids
  drawn, which bounds every returned id.
\<close>

definition pool_inv :: "pool_run \<Rightarrow> bool" where
  "pool_inv r =
     (distinct (holders r @ queue (pool_of r))
      \<and> list_all (\<lambda>i. unat i < fresh r) (returned r)
      \<and> list_all (\<lambda>i. i \<in> set (returned r)) (holders r @ queue (pool_of r))
      \<and> curID (pool_of r) = of_nat (fresh r))"

subsection \<open>Callbacks\<close>

text \<open>
  A callback is a Go closure. The closures considered here are built from the package's own
  operations, \<^verbatim>\<open>panic\<close> and a deferred \<^verbatim>\<open>recover\<close>; \<open>exec\<close> below gives each command the
  meaning of the function it calls. The bindings of a \<open>CSetValues\<close> denote the Go map that
  holds the first pair of every key.
\<close>

datatype ('k, 'v) cmd =
    CSetValues nat "('k \<times> 'v iface) list" "('k, 'v) cmd list"
  | CGetValue nat 'k
  | CGo "('k, 'v) cmd list"
  | CUnregister nat
  | CWrapWithGLS "('k, 'v) cmd list"
  | CSet string "'v iface"
  | CGet string
  | CPanic
  | CRecover "('k, 'v) cmd list"

subsection \<open>The program state\<close>

text \<open>
  \<open>gid\<close> is the identity tag of the goroutine that is running (none before it enters
  \<open>EnsureGoroutineId\<close>). A context manager is named by a number, the address of its
  struct. \<open>spawned\<close> holds the closures handed to \<^verbatim>\<open>go\<close> that have not run yet: the
  \<open>SetValues\<close> layers wrapped around the callback by \<open>Go\<close>, outermost first, each with its
  manager and the address of the captured map. \<open>observed\<close> is not part of the package: it
  records what the \<open>GetValue\<close> calls of the callbacks returned, in the order of the calls.
\<close>

record ContextManager =
  mgr_values :: "u32 \<rightharpoonup> nat"

record ('k, 'v) state =
  pool :: idPool
  gid :: "u32 option"
  mgrs :: "nat \<Rightarrow> ContextManager"
  next_mgr :: nat
  mgrRegistry :: "nat list"
  cells :: "nat \<Rightarrow> ('k \<times> 'v iface) list"
  next_cell :: nat
  globalMaps :: "(string \<times> 'v iface) list option list"
  curMaxGoroutineCount :: int
  spawned :: "((nat \<times> nat) list \<times> ('k, 'v) cmd list) list"
  observed :: "(nat \<times> 'k \<times> 'v iface \<times> bool) list"

definition initialMaxGoroutineCount :: int where
  "initialMaxGoroutineCount = 1024"

definition extendUnit :: u32 where
  "extendUnit = 128"

text \<open>The package-level variables after \<^verbatim>\<open>init()\<close>.\<close>

definition init_state :: "('k, 'v) state" where
  "init_state =
     \<lparr>pool = zero_pool, gid = None, mgrs = (\<lambda>m. \<lparr>mgr_values = Map.empty\<rparr>), next_mgr = 0,
      mgrRegistry = [], cells = (\<lambda>r. []), next_cell = 0,
      globalMaps = replicate (nat initialMaxGoroutineCount) None,
      curMaxGoroutineCount = initialMaxGoroutineCount, spawned = [], observed = []\<rparr>"

subsection \<open>The context manager (\<^verbatim>\<open>context.go\<close>)\<close>

definition NewContextManager :: "('k, 'v) state \<Rightarrow> nat \<times> ('k, 'v) state" where
  "NewContextManager s =
     (let mgr = next_mgr s in
        (mgr, s\<lparr>mgrs := (mgrs s)(mgr := \<lparr>mgr_values = Map.empty\<rparr>),
                next_mgr := Suc mgr,
                mgrRegistry := mgrRegistry s @ [mgr]\<rparr>))"

definition Unregister :: "nat \<Rightarrow> ('k, 'v) state \<Rightarrow> ('k, 'v) state" where
  "Unregister m s = s\<lparr>mgrRegistry := removeAll m (mgrRegistry s)\<rparr>"

text \<open>
  Modelled from the spec: \<^verbatim>\<open>GetGoroutineId\<close> and \<^verbatim>\<open>EnsureGoroutineId\<close> are not among the
  source files. The spec has \<^verbatim>\<open>CurrentTaskIdentity() -> (id, found)\<close>, and
  \<^verbatim>\<open>EnsureTaskIdentity(callback)\<close>, which "runs callback guaranteeing a valid identity exists
  for its duration, assigning one from the Identity Pool on first need and arranging
  release when the outermost such wrapper for that task exits".
\<close>

definition GetGoroutineId :: "('k, 'v) state \<Rightarrow> u32 option" where
  "GetGoroutineId s = gid s"

definition release_gid :: "u32 \<Rightarrow> ('k, 'v) state \<Rightarrow> ('k, 'v) state" where
  "release_gid g s = s\<lparr>pool := Release g (pool s), gid := None\<rparr>"

definition EnsureGoroutineId ::
  "(u32 \<Rightarrow> ('k, 'v) state \<Rightarrow> (unit, ('k, 'v) state) result)
   \<Rightarrow> ('k, 'v) state \<Rightarrow> (unit, ('k, 'v) state) result" where
  "EnsureGoroutineId cb s =
     (case GetGoroutineId s of
        Some g \<Rightarrow> cb g s
      | None \<Rightarrow>
          (case Acquire (pool s) of
             (g, p') \<Rightarrow> deferred (release_gid g) (cb g (s\<lparr>pool := p', gid := Some g\<rparr>))))"

text \<open>
  \<^verbatim>\<open>SetValues\<close>, lines 81 to 95: fetch or create the goroutine's map, then the loop over
  \<^verbatim>\<open>new_values\<close>, which saves the old value of every key and writes the new one.
  The result is the frame the deferred function needs: \<^verbatim>\<open>found\<close>, the address \<^verbatim>\<open>state\<close>,
  \<^verbatim>\<open>mutated_keys\<close> and \<^verbatim>\<open>mutated_vals\<close>.
\<close>

fun bind_loop ::
  "('k \<times> 'v iface) list \<Rightarrow> 'k list \<times> ('k \<times> 'v iface) list \<times> ('k \<times> 'v iface) list
   \<Rightarrow> 'k list \<times> ('k \<times> 'v iface) list \<times> ('k \<times> 'v iface) list" where
  "bind_loop [] acc = acc"
| "bind_loop ((key, new_val) # rest) (mutated_keys, mutated_vals, st) =
     bind_loop rest
       (mutated_keys @ [key],
        (case map_of st key of
           Some old_val \<Rightarrow> AList.update key old_val mutated_vals
         | None \<Rightarrow> mutated_vals),
        AList.update key new_val st)"

definition SetValues_bind ::
  "nat \<Rightarrow> u32 \<Rightarrow> ('k \<times> 'v iface) list \<Rightarrow> ('k, 'v) state
   \<Rightarrow> (bool \<times> nat \<times> 'k list \<times> ('k \<times> 'v iface) list) \<times> ('k, 'v) state" where
  "SetValues_bind m g new_values s =
     (let found = (mgr_values (mgrs s m) g \<noteq> None);
          state_ref = (case mgr_values (mgrs s m) g of Some r \<Rightarrow> r | None \<Rightarrow> next_cell s);
          s1 = (if found then s
                else s\<lparr>cells := (cells s)(state_ref := []),
                       next_cell := Suc (next_cell s),
                       mgrs := (mgrs s)(m := (mgrs s m)
                                 \<lparr>mgr_values := (mgr_values (mgrs s m))(g \<mapsto> state_ref)\<rparr>)\<rparr>)
      in (case bind_loop new_values ([], [], cells s1 state_ref) of
            (mutated_keys, mutated_vals, st) \<Rightarrow>
              ((found, state_ref, mutated_keys, mutated_vals),
               s1\<lparr>cells := (cells s1)(state_ref := st)\<rparr>)))"

text \<open>Lines 97 to 112: the deferred function.\<close>

fun restore_loop ::
  "'k list \<Rightarrow> ('k \<times> 'v iface) list \<Rightarrow> ('k \<times> 'v iface) list \<Rightarrow> ('k \<times> 'v iface) list" where
  "restore_loop [] mutated_vals st = st"
| "restore_loop (key # rest) mutated_vals st =
     restore_loop rest mutated_vals
       (case map_of mutated_vals key of
          Some val \<Rightarrow> AList.update key val st
        | None \<Rightarrow> AList.delete key st)"

definition SetValues_restore ::
  "nat \<Rightarrow> u32 \<Rightarrow> bool \<times> nat \<times> 'k list \<times> ('k \<times> 'v iface) list
   \<Rightarrow> ('k, 'v) state \<Rightarrow> ('k, 'v) state" where
  "SetValues_restore m g fr s =
     (case fr of
        (found, state_ref, mutated_keys, mutated_vals) \<Rightarrow>
          if \<not> found
          then s\<lparr>mgrs := (mgrs s)(m := (mgrs s m)
                   \<lparr>mgr_values := (mgr_values (mgrs s m))(g := None)\<rparr>)\<rparr>
          else s\<lparr>cells := (cells s)
                   (state_ref := restore_loop mutated_keys mutated_vals (cells s state_ref))\<rparr>)"

text \<open>The closure handed to \<open>EnsureGoroutineId\<close>, and \<^verbatim>\<open>SetValues\<close> itself.\<close>

definition SetValues_body ::
  "nat \<Rightarrow> ('k \<times> 'v iface) list \<Rightarrow> (('k, 'v) state \<Rightarrow> (unit, ('k, 'v) state) result)
   \<Rightarrow> u32 \<Rightarrow> ('k, 'v) state \<Rightarrow> (unit, ('k, 'v) state) result" where
  "SetValues_body m new_values context_call g s =
     (case SetValues_bind m g new_values s of
        (fr, s2) \<Rightarrow> deferred (SetValues_restore m g fr) (context_call s2))"

definition SetValues ::
  "nat \<Rightarrow> ('k \<times> 'v iface) list \<Rightarrow> (('k, 'v) state \<Rightarrow> (unit, ('k, 'v) state) result)
   \<Rightarrow> ('k, 'v) state \<Rightarrow> (unit, ('k, 'v) state) result" where
  "SetValues m new_values context_call s =
     (if length new_values = 0 then context_call s
      else EnsureGoroutineId (SetValues_body m new_values context_call) s)"

definition GetValue :: "nat \<Rightarrow> 'k \<Rightarrow> ('k, 'v) state \<Rightarrow> 'v iface \<times> bool" where
  "GetValue m key s =
     (case GetGoroutineId s of
        None \<Rightarrow> (IfaceNil, False)
      | Some g \<Rightarrow>
          (case mgr_values (mgrs s m) g of
             None \<Rightarrow> (IfaceNil, False)
           | Some state_ref \<Rightarrow>
               (case map_of (cells s state_ref) key of
                  None \<Rightarrow> (IfaceNil, False)
                | Some val \<Rightarrow> (val, True))))"

text \<open>\<^verbatim>\<open>getValues\<close> returns the map itself, that is its address; \<open>None\<close> is the nil map.\<close>

definition getValues :: "nat \<Rightarrow> ('k, 'v) state \<Rightarrow> nat option" where
  "getValues m s =
     (case GetGoroutineId s of
        None \<Rightarrow> None
      | Some g \<Rightarrow> mgr_values (mgrs s m) g)"

text \<open>
  \<^verbatim>\<open>Go\<close>: the loop over the registry wraps the callback once for every manager whose map
  is not empty now; a later layer is wrapped around the earlier ones. The closure keeps
  the address \<^verbatim>\<open>values\<close>. \<^verbatim>\<open>go cb()\<close> hands the closure to the scheduler.
\<close>

fun Go_wrap ::
  "nat list \<Rightarrow> ('k, 'v) state \<Rightarrow> (nat \<times> nat) list \<Rightarrow> (nat \<times> nat) list" where
  "Go_wrap [] s layers = layers"
| "Go_wrap (mgr # rest) s layers =
     (case getValues mgr s of
        None \<Rightarrow> Go_wrap rest s layers
      | Some values_ref \<Rightarrow>
          if length (cells s values_ref) > 0
          then Go_wrap rest s ((mgr, values_ref) # layers)
          else Go_wrap rest s layers)"

definition Go :: "('k, 'v) cmd list \<Rightarrow> ('k, 'v) state \<Rightarrow> (unit, ('k, 'v) state) result" where
  "Go cb s = Returns () (s\<lparr>spawned := spawned s @ [(Go_wrap (mgrRegistry s) s [], cb)]\<rparr>)"

subsection \<open>The slot array and the low-level pair\<close>

definition extend :: "u32 \<Rightarrow> ('k, 'v) state \<Rightarrow> ('k, 'v) state" where
  "extend goID s =
     (if goID \<ge> word_of_int (curMaxGoroutineCount s)
      then (let unit = ((goID - word_of_int (curMaxGoroutineCount s)) div extendUnit + 1)
                         * extendUnit
            in s\<lparr>globalMaps := globalMaps s @ replicate (unat unit) None,
                 curMaxGoroutineCount := curMaxGoroutineCount s + uint unit\<rparr>)
      else s)"

text \<open>
  \<^verbatim>\<open>getGLS\<close> indexes the slice: an index beyond its length panics. The map it returns is
  the one stored at \<^verbatim>\<open>globalMaps[goID]\<close>, and \<^verbatim>\<open>Set\<close> writes through to it. No other
  reference to such a map exists, so the slice holds the maps themselves.
\<close>

definition getGLS ::
  "('k, 'v) state
   \<Rightarrow> ((string \<times> 'v iface) list option \<times> error option, ('k, 'v) state) result" where
  "getGLS s =
     (case GetGoroutineId s of
        None \<Rightarrow> Returns (None, Some NotEnabled) s
      | Some goID \<Rightarrow>
          if unat goID < length (globalMaps s)
          then Returns (globalMaps s ! unat goID, None) s
          else Panics IndexOutOfRange s)"

definition WrapWithGLS_body ::
  "(('k, 'v) state \<Rightarrow> (unit, ('k, 'v) state) result)
   \<Rightarrow> u32 \<Rightarrow> ('k, 'v) state \<Rightarrow> (unit, ('k, 'v) state) result" where
  "WrapWithGLS_body f goID s =
     (let s1 = (if goID \<ge> word_of_int (curMaxGoroutineCount s) then extend goID s else s)
      in if unat goID < length (globalMaps s1)
         then f (s1\<lparr>globalMaps := (globalMaps s1)[unat goID := Some []]\<rparr>)
         else Panics IndexOutOfRange s1)"

definition WrapWithGLS ::
  "(('k, 'v) state \<Rightarrow> (unit, ('k, 'v) state) result)
   \<Rightarrow> ('k, 'v) state \<Rightarrow> (unit, ('k, 'v) state) result" where
  "WrapWithGLS f s = EnsureGoroutineId (WrapWithGLS_body f) s"

definition Set ::
  "string \<Rightarrow> 'v iface \<Rightarrow> ('k, 'v) state \<Rightarrow> (error option, ('k, 'v) state) result" where
  "Set key val s =
     (case getGLS s of
        Panics p s' \<Rightarrow> Panics p s'
      | Returns (glsMap, err) s' \<Rightarrow>
          (case err of
             Some e \<Rightarrow> Returns (Some e) s'
           | None \<Rightarrow>
               (case glsMap of
                  None \<Rightarrow> Panics NilMapWrite s'
                | Some c \<Rightarrow>
                    (case GetGoroutineId s' of
                       None \<Rightarrow> Returns None s'
                     | Some goID \<Rightarrow>
                         Returns None
                           (s'\<lparr>globalMaps :=
                                (globalMaps s')[unat goID := Some (AList.update key val c)]\<rparr>)))))"

definition Get ::
  "string \<Rightarrow> ('k, 'v) state \<Rightarrow> ('v iface \<times> error option, ('k, 'v) state) result" where
  "Get key s =
     (case getGLS s of
        Panics p s' \<Rightarrow> Panics p s'
      | Returns (glsMap, err) s' \<Rightarrow>
          (case err of
             Some e \<Rightarrow> Returns (IfaceNil, Some e) s'
           | None \<Rightarrow>
               (case glsMap of
                  None \<Rightarrow> Returns (IfaceNil, None) s'
                | Some c \<Rightarrow>
                    (case map_of c key of
                       None \<Rightarrow> Returns (IfaceNil, None) s'
                     | Some val \<Rightarrow> Returns (val, None) s'))))"

subsection \<open>Running callbacks\<close>

definition discard :: "('a, 's) result \<Rightarrow> (unit, 's) result" where
  "discard r = (case r of Returns a s \<Rightarrow> Returns () s | Panics p s \<Rightarrow> Panics p s)"

text \<open>Two statements of a Go function body in sequence.\<close>

definition then_do ::
  "('s \<Rightarrow> (unit, 's) result) \<Rightarrow> ('s \<Rightarrow> (unit, 's) result) \<Rightarrow> 's \<Rightarrow> (unit, 's) result" where
  "then_do f g s = (case f s of Returns u s' \<Rightarrow> g s' | Panics p s' \<Rightarrow> Panics p s')"

definition recovered :: "(unit, 's) result \<Rightarrow> (unit, 's) result" where
  "recovered r = (case r of Returns a s \<Rightarrow> Returns () s | Panics p s \<Rightarrow> Returns () s)"

primrec exec :: "('k, 'v) cmd \<Rightarrow> ('k, 'v) state \<Rightarrow> (unit, ('k, 'v) state) result"
  and execs :: "('k, 'v) cmd list \<Rightarrow> ('k, 'v) state \<Rightarrow> (unit, ('k, 'v) state) result" where
  "exec (CSetValues m new_values body) = SetValues m (AList.clearjunk new_values) (execs body)"
| "exec (CGetValue m key) =
     (\<lambda>s. case GetValue m key s of
            (val, ok) \<Rightarrow> Returns () (s\<lparr>observed := observed s @ [(m, key, val, ok)]\<rparr>))"
| "exec (CGo body) = Go body"
| "exec (CUnregister m) = (\<lambda>s. Returns () (Unregister m s))"
| "exec (CWrapWithGLS body) = WrapWithGLS (execs body)"
| "exec (CSet key val) = (\<lambda>s. discard (Set key val s))"
| "exec (CGet key) = (\<lambda>s. discard (Get key s))"
| "exec CPanic = Panics UserPanic"
| "exec (CRecover body) = (\<lambda>s. recovered (execs body s))"
| "execs [] = Returns ()"
| "execs (c # cs) = then_do (exec c) (execs cs)"

text \<open>
  A spawned closure runs in a new goroutine, which has no identity yet: each layer calls
  \<^verbatim>\<open>mgr.SetValues(values, cb)\<close> with the map found at the captured address when the layer
  runs. \<open>run_spawned\<close> lets the scheduler run the oldest spawned closure to its end while
  the current goroutine is suspended; a panic that leaves a goroutine ends the program.
\<close>

fun run_layers ::
  "(nat \<times> nat) list \<Rightarrow> ('k, 'v) cmd list \<Rightarrow> ('k, 'v) state \<Rightarrow> (unit, ('k, 'v) state) result" where
  "run_layers [] cb s = execs cb s"
| "run_layers ((mgr, values_ref) # layers) cb s =
     SetValues mgr (cells s values_ref) (run_layers layers cb) s"

definition run_spawned :: "('k, 'v) state \<Rightarrow> (unit, ('k, 'v) state) result" where
  "run_spawned s =
     (case spawned s of
        [] \<Rightarrow> Returns () s
      | (layers, cb) # rest \<Rightarrow>
          (case run_layers layers cb (s\<lparr>spawned := rest, gid := None\<rparr>) of
             Returns u s' \<Rightarrow> Returns () (s'\<lparr>gid := gid s\<rparr>)
           | Panics p s' \<Rightarrow> Panics p s'))"

subsection \<open>Invariants and observations used by the theorems\<close>

text \<open>
  The slot array as the code keeps it: \<^verbatim>\<open>curMaxGoroutineCount\<close> is the length of
  \<^verbatim>\<open>globalMaps\<close>, a multiple of the chunk size, and never below its initial value.
\<close>

definition slots_inv :: "('k, 'v) state \<Rightarrow> bool" where
  "slots_inv s =
     (int (length (globalMaps s)) = curMaxGoroutineCount s
      \<and> uint extendUnit dvd curMaxGoroutineCount s
      \<and> initialMaxGoroutineCount \<le> curMaxGoroutineCount s)"

definition slots_kept :: "(('k, 'v) state \<Rightarrow> (unit, ('k, 'v) state) result) \<Rightarrow> bool" where
  "slots_kept C = (\<forall>s. slots_inv s \<longrightarrow> slots_inv (state_of (C s)))"

text \<open>
  The store as the code keeps it: every map address held by a manager has been allocated,
  and no two entries hold the same address (each comes from its own \<^verbatim>\<open>make\<close>).
\<close>

definition heap_ok :: "('k, 'v) state \<Rightarrow> bool" where
  "heap_ok s =
     (\<forall>m g r. mgr_values (mgrs s m) g = Some r \<longrightarrow>
        r < next_cell s
        \<and> (\<forall>m' g'. mgr_values (mgrs s m') g' = Some r \<longrightarrow> m' = m \<and> g' = g))"

text \<open>
  What a completed call leaves untouched: the managers' slot tables, the running
  goroutine's identity, and the keys and values of every map allocated before the call.
\<close>

definition frame :: "('k, 'v) state \<Rightarrow> ('k, 'v) state \<Rightarrow> bool" where
  "frame s s' =
     (mgrs s' = mgrs s \<and> gid s' = gid s \<and> next_cell s \<le> next_cell s'
      \<and> (\<forall>r. r < next_cell s \<longrightarrow> map_of (cells s' r) = map_of (cells s r)))"

definition neutral :: "(('k, 'v) state \<Rightarrow> (unit, ('k, 'v) state) result) \<Rightarrow> bool" where
  "neutral C = (\<forall>s. heap_ok s \<longrightarrow> frame s (state_of (C s)))"

text \<open>
  The identity and the state with which \<open>EnsureGoroutineId\<close> invokes its callback, the state
  in which \<open>SetValues m B\<close> invokes \<open>context_call\<close>, and the state in which \<open>WrapWithGLS\<close>
  invokes \<open>f\<close> (none when indexing the slice panics first).
\<close>

definition ensured :: "('k, 'v) state \<Rightarrow> u32 \<times> ('k, 'v) state" where
  "ensured s =
     (case gid s of
        Some g \<Rightarrow> (g, s)
      | None \<Rightarrow> (case Acquire (pool s) of (g, p') \<Rightarrow> (g, s\<lparr>pool := p', gid := Some g\<rparr>)))"

definition callback_state ::
  "nat \<Rightarrow> ('k \<times> 'v iface) list \<Rightarrow> ('k, 'v) state \<Rightarrow> ('k, 'v) state" where
  "callback_state m B s = (case ensured s of (g, s1) \<Rightarrow> snd (SetValues_bind m g B s1))"

definition gls_state :: "('k, 'v) state \<Rightarrow> ('k, 'v) state option" where
  "gls_state s =
     (case ensured s of
        (goID, s1) \<Rightarrow>
          (let s2 = (if goID \<ge> word_of_int (curMaxGoroutineCount s1) then extend goID s1 else s1)
           in if unat goID < length (globalMaps s2)
              then Some (s2\<lparr>globalMaps := (globalMaps s2)[unat goID := Some []]\<rparr>)
              else None))"

text \<open>
  The points of a callback's execution: \<open>inside m k s0 s\<close> holds when control, having
  started the callback in state \<open>s0\<close>, is in state \<open>s\<close> after commands that returned, at the
  start of the callback of a nested \<open>WrapWithGLS\<close>, or at the start of the callback of a
  nested \<open>SetValues\<close> that does not bind key \<open>k\<close> of manager \<open>m\<close> again.
\<close>

inductive inside :: "nat \<Rightarrow> 'k \<Rightarrow> ('k, 'v) state \<Rightarrow> ('k, 'v) state \<Rightarrow> bool"
  for m :: nat and k :: 'k and s0 :: "('k, 'v) state" where
    inside_start: "inside m k s0 s0"
  | inside_step: "inside m k s0 s1 \<Longrightarrow> exec c s1 = Returns () s2 \<Longrightarrow> inside m k s0 s2"
  | inside_wrap: "inside m k s0 s1 \<Longrightarrow> gls_state s1 = Some s2 \<Longrightarrow> inside m k s0 s2"
  | inside_scope:
      "inside m k s0 s1 \<Longrightarrow> distinct (map fst B2) \<Longrightarrow> B2 \<noteq> []
       \<Longrightarrow> m2 \<noteq> m \<or> k \<notin> fst ` set B2
       \<Longrightarrow> inside m k s0 (callback_state m2 B2 s1)"

text \<open>
  The running goroutine has an identity whose entry of \<^verbatim>\<open>globalMaps\<close> exists and holds a map.
\<close>

definition gls_ready :: "('k, 'v) state \<Rightarrow> bool" where
  "gls_ready s =
     (case gid s of
        None \<Rightarrow> False
      | Some goID \<Rightarrow> unat goID < length (globalMaps s) \<and> globalMaps s ! unat goID \<noteq> None)"

text \<open>What a call returned, if it returned.\<close>

definition value_of :: "('a, 's) result \<Rightarrow> 'a option" where
  "value_of r = (case r of Returns a s \<Rightarrow> Some a | Panics p s \<Rightarrow> None)"

subsection \<open>States and runs used as examples\<close>

text \<open>
  \<open>scope_state\<close>: inside \<open>SetValues\<close> of manager \<open>0\<close> binding key \<open>1\<close> to \<open>10\<close>, from the initial
  state. \<open>wrapped_state\<close>: inside \<open>WrapWithGLS\<close>, from the initial state. \<open>stale_state\<close>: after
  a goroutine has run \<open>Set("k", 7)\<close> inside \<open>WrapWithGLS\<close> and ended; its identity \<open>0\<close> is back
  in the reuse queue and its slot still holds the value.
\<close>

definition scope_state :: "(nat, nat) state" where
  "scope_state = callback_state 0 [(1, Iface 10)] init_state"

definition wrapped_state :: "(nat, nat) state" where
  "wrapped_state = (case gls_state init_state of Some s \<Rightarrow> s | None \<Rightarrow> init_state)"

definition stale_state :: "(nat, nat) state" where
  "stale_state = state_of (WrapWithGLS (execs [CSet ''k'' (Iface 7)]) init_state)"

text \<open>
  One manager is registered. The goroutine binds key \<open>1\<close> in an outer scope and key \<open>2\<close> in an
  inner scope, and calls \<open>Go\<close> inside the inner scope with a callback that reads both keys.
  In the first run the scheduler runs the spawned goroutine before the inner scope ends,
  in the second run right after the inner scope has ended.
\<close>

definition registered_state :: "(nat, nat) state" where
  "registered_state = snd (NewContextManager init_state)"

definition spawned_reads :: "(nat, nat) cmd list" where
  "spawned_reads = [CGetValue 0 1, CGetValue 0 2]"

definition spawn_then_run_inside ::
  "(nat, nat) state \<Rightarrow> (unit, (nat, nat) state) result" where
  "spawn_then_run_inside =
     SetValues 0 [(1, Iface 10)]
       (SetValues 0 [(2, Iface 20)] (then_do (Go spawned_reads) run_spawned))"

definition spawn_then_run_after ::
  "(nat, nat) state \<Rightarrow> (unit, (nat, nat) state) result" where
  "spawn_then_run_after =
     SetValues 0 [(1, Iface 10)]
       (then_do (SetValues 0 [(2, Iface 20)] (Go spawned_reads)) run_spawned)"

section \<open>The identity pool\<close>

lemma newIDs_ids: "fst (newIDs n p) = map (\<lambda>i. curID p + of_nat i) [0..<n]"
proof (induction n arbitrary: p)
  case 0
  then show ?case by simp
next
  case (Suc n)
  have "map (\<lambda>i. curID p + of_nat i) [0..<Suc n] =
        curID p # map (\<lambda>i. curID p + 1 + of_nat i) [0..<n]"
    by (simp add: upt_conv_Cons map_Suc_upt [symmetric] del: upt_Suc add: add.assoc)
  then show ?case using Suc.IH [of "snd (newID p)"]
    by (simp add: newID_def Let_def case_prod_beta)
qed

lemma newIDs_curID: "curID (snd (newIDs n p)) = curID p + of_nat n"
  by (induction n arbitrary: p) (simp_all add: newID_def Let_def case_prod_beta add.assoc)

lemma inj_on_offset:
  "inj_on (\<lambda>i. (c::u32) + of_nat i) {0..<n} \<longleftrightarrow> n \<le> 2 ^ 32"
proof
  assume inj: "inj_on (\<lambda>i. c + of_nat i) {0..<n}"
  show "n \<le> 2 ^ 32"
  proof (rule ccontr)
    assume "\<not> n \<le> 2 ^ 32"
    then have a: "(0::nat) \<in> {0..<n}" and b: "(2 ^ 32 :: nat) \<in> {0..<n}" by auto
    have "c + of_nat (0::nat) = c + of_nat (2 ^ 32 :: nat)" by simp
    with inj a b have "(0::nat) = 2 ^ 32" by (blast dest: inj_onD)
    then show False by simp
  qed
next
  assume le: "n \<le> 2 ^ 32"
  show "inj_on (\<lambda>i. c + of_nat i) {0..<n}"
  proof (rule inj_onI)
    fix i j assume i: "i \<in> {0..<n}" and j: "j \<in> {0..<n}"
      and eq: "c + of_nat i = c + of_nat j"
    from eq have "(of_nat i :: u32) = of_nat j" by simp
    then have "unat (of_nat i :: u32) = unat (of_nat j :: u32)" by simp
    moreover have "i < 2 ^ 32" "j < 2 ^ 32" using i j le by auto
    ultimately show "i = j" by (simp add: unat_of_nat)
  qed
qed

lemma distinct_newIDs: "distinct (fst (newIDs n p)) = (n \<le> 2 ^ 32)"
  using inj_on_offset [of "curID p" n] by (simp add: newIDs_ids distinct_map)

text \<open>
  Claim C10. The counter of fresh ids is a 32-bit unsigned integer that is incremented with
  wrap-around: from the zero counter, \<open>newID\<close> yields \<open>0, 1, 2, \<dots>\<close> modulo \<open>2 ^ 32\<close>; after
  \<open>2 ^ 32\<close> calls the counter is \<open>0\<close> again and the next id is the first one once more; ids
  drawn in a row are pairwise different exactly while there are at most \<open>2 ^ 32\<close> of them.
\<close>

theorem newID_wraparound:
  "map unat (fst (newIDs n zero_pool)) = map (\<lambda>i. i mod 2 ^ 32) [0..<n]
   \<and> curID (snd (newIDs (2 ^ 32) zero_pool)) = 0
   \<and> fst (newID (snd (newIDs (2 ^ 32) zero_pool))) = fst (newID zero_pool)
   \<and> distinct (fst (newIDs n p)) = (n \<le> 2 ^ 32)"
proof -
  have b: "map unat (fst (newIDs n zero_pool)) = map (\<lambda>i. i mod 2 ^ 32) [0..<n]"
    by (simp add: newIDs_ids zero_pool_def unat_of_nat)
  have c: "curID (snd (newIDs (2 ^ 32) zero_pool)) = 0"
    by (simp add: newIDs_curID zero_pool_def)
  have d: "fst (newID (snd (newIDs (2 ^ 32) zero_pool))) = fst (newID zero_pool)"
    by (simp add: newID_def Let_def newIDs_curID zero_pool_def)
  from b c d distinct_newIDs show ?thesis by blast
qed

text \<open>The first three ids of the zero counter.\<close>

theorem newID_wraparound_witness:
  "map unat (fst (newIDs 3 zero_pool)) = [0, 1, 2] \<and> distinct (fst (newIDs 3 zero_pool))"
  using newID_wraparound [of 3 zero_pool] by (simp add: upt_rec)

subsection \<open>The pool never hands an id to two holders\<close>

lemma acquired_fresh:
  "draws_fresh op p \<Longrightarrow> acquired op p = (curID p, p\<lparr>curID := curID p + 1\<rparr>)"
  by (auto simp: draws_fresh_def acquired_def newID_def Acquire_def Dequeue_def Let_def)

lemma acquired_reuse:
  "\<not> draws_fresh op p \<Longrightarrow> acquired op p = (hd (queue p), p\<lparr>queue := tl (queue p)\<rparr>)"
  by (auto simp: draws_fresh_def acquired_def Acquire_def Dequeue_def split: list.splits)

lemma unat_fresh_id: "n < 2 ^ 32 \<Longrightarrow> unat (of_nat n :: u32) = n"
  by (simp add: unat_of_nat)

lemma pool_step_release:
  assumes "pool_inv r" and "i \<in> set (holders r)"
  shows "pool_inv (pool_step (Release_op i) r)"
proof -
  from assms(1) have d: "distinct (holders r)" "distinct (queue (pool_of r))"
    "set (holders r) \<inter> set (queue (pool_of r)) = {}"
    by (auto simp: pool_inv_def)
  have "distinct (remove1 i (holders r) @ queue (pool_of r) @ [i])"
    using d assms(2) by (auto simp: set_remove1_eq)
  moreover have "set (remove1 i (holders r) @ queue (pool_of r) @ [i])
        \<subseteq> set (holders r @ queue (pool_of r))"
    using assms(2) d by (auto simp: set_remove1_eq)
  ultimately show ?thesis using assms(1)
    by (auto simp: pool_inv_def Release_def Enqueue_def list_all_iff)
qed

lemma pool_step_reuse:
  assumes "pool_inv r" and "op \<noteq> Release_op i" and "\<not> draws_fresh op (pool_of r)"
    and "\<forall>j. op \<noteq> Release_op j"
  shows "pool_inv (pool_step op r) \<and> acquires_well op r"
proof -
  from assms(3) obtain x q where q: "queue (pool_of r) = x # q"
    by (cases "queue (pool_of r)") (auto simp: draws_fresh_def)
  have st: "pool_step op r = r\<lparr>pool_of := (pool_of r)\<lparr>queue := q\<rparr>, holders := holders r @ [x],
      returned := returned r @ [x], fresh := fresh r\<rparr>"
    using assms(3,4) q by (cases op) (simp_all add: acquired_reuse)
  from assms(1) q have "x \<notin> set (holders r)" "x \<in> set (returned r)"
    by (auto simp: pool_inv_def list_all_iff)
  then show ?thesis using assms(1,3) q unfolding st
    by (auto simp: pool_inv_def list_all_iff acquires_well_def Let_def acquired_reuse)
qed

lemma pool_step_fresh:
  assumes "pool_inv r" and "draws_fresh op (pool_of r)" and "fresh r < 2 ^ 32"
    and "\<forall>j. op \<noteq> Release_op j"
  shows "pool_inv (pool_step op r) \<and> acquires_well op r"
proof -
  let ?c = "curID (pool_of r)"
  have st: "pool_step op r = r\<lparr>pool_of := (pool_of r)\<lparr>curID := ?c + 1\<rparr>, holders := holders r @ [?c],
      returned := returned r @ [?c], fresh := Suc (fresh r)\<rparr>"
    using assms(2,4) by (cases op) (simp_all add: acquired_fresh)
  from assms(1) have c: "?c = of_nat (fresh r)" by (simp add: pool_inv_def)
  with assms(3) have u: "unat ?c = fresh r" by (simp add: unat_fresh_id)
  from assms(1) u have nr: "?c \<notin> set (returned r)"
    by (auto simp: pool_inv_def list_all_iff)
  with assms(1) have nh: "?c \<notin> set (holders r)" "?c \<notin> set (queue (pool_of r))"
    by (auto simp: pool_inv_def list_all_iff)
  have "pool_inv (pool_step op r)"
    unfolding st using assms(1) nr nh u c
    by (auto simp: pool_inv_def list_all_iff less_Suc_eq)
  moreover have "acquires_well op r"
    using assms(2) nr nh by (simp add: acquires_well_def Let_def acquired_fresh)
  ultimately show ?thesis ..
qed

lemma safe_run_lemma:
  "pool_inv r \<Longrightarrow> releases_held ops r \<Longrightarrow> counter_has_room ops r
   \<Longrightarrow> safe_run ops r \<and> pool_inv (pool_exec ops r)"
proof (induction ops arbitrary: r)
  case Nil
  then show ?case by (simp add: pool_inv_def)
next
  case (Cons op ops)
  have d: "distinct (holders r)" using Cons.prems(1) by (simp add: pool_inv_def)
  show ?case
  proof (cases "\<exists>i. op = Release_op i")
    case True
    then obtain i where op: "op = Release_op i" ..
    with Cons.prems have "i \<in> set (holders r)" by simp
    with Cons.prems(1) have "pool_inv (pool_step op r)"
      unfolding op by (rule pool_step_release)
    with Cons.IH [of "pool_step op r"] Cons.prems d show ?thesis
      by (simp add: op)
  next
    case False
    then have nr: "\<forall>j. op \<noteq> Release_op j" by simp
    have step: "pool_inv (pool_step op r) \<and> acquires_well op r"
    proof (cases "draws_fresh op (pool_of r)")
      case True
      with Cons.prems(3) nr have "fresh r < 2 ^ 32" by (cases op) simp_all
      with Cons.prems(1) True nr show ?thesis by (simp add: pool_step_fresh)
    next
      case False
      with Cons.prems(1) nr show ?thesis using pool_step_reuse [of r op 0] by simp
    qed
    moreover have "releases_held ops (pool_step op r)" "counter_has_room ops (pool_step op r)"
      using Cons.prems nr by (cases op; simp)+
    ultimately show ?thesis using Cons.IH [of "pool_step op r"] d nr
      by (cases op) simp_all
  qed
qed


text \<open>
  Claim C4, as amended. For every schedule of acquisitions and releases in which \<open>Release\<close>
  is only called on an id that is held, and in which fewer than \<open>2 ^ 32\<close> fresh ids have been
  drawn whenever \<open>newID\<close> is reached: no two live holders ever hold the same id; every
  acquisition returns either the head of the reuse queue, held by nobody, or the counter's
  value before the increment, which no acquisition has returned before.
\<close>

theorem pool_ids_exclusive:
  "pool_inv r \<Longrightarrow> releases_held ops r \<Longrightarrow> counter_has_room ops r
   \<Longrightarrow> safe_run ops r \<and> pool_inv (pool_exec ops r)"
  by (rule safe_run_lemma)

text \<open>A schedule of five operations on the new pool, with a release and a late \<open>newID\<close>.\<close>

theorem pool_ids_exclusive_witness:
  "pool_inv new_run
   \<and> releases_held [Acquire_op, Acquire_op, Release_op 0, Acquire_miss_op, Acquire_op] new_run
   \<and> counter_has_room [Acquire_op, Acquire_op, Release_op 0, Acquire_miss_op, Acquire_op] new_run
   \<and> safe_run [Acquire_op, Acquire_op, Release_op 0, Acquire_miss_op, Acquire_op] new_run
   \<and> holders (pool_exec [Acquire_op, Acquire_op, Release_op 0, Acquire_miss_op, Acquire_op] new_run)
       = [1, 2, 0]"
proof -
  let ?ops = "[Acquire_op, Acquire_op, Release_op 0, Acquire_miss_op, Acquire_op]"
  have a: "pool_inv new_run"
    by (simp add: pool_inv_def new_run_def zero_pool_def)
  have b: "releases_held ?ops new_run"
    by (simp add: new_run_def zero_pool_def acquired_def Acquire_def Dequeue_def newID_def
        Release_def Enqueue_def draws_fresh_def)
  have c: "counter_has_room ?ops new_run"
    by (simp add: new_run_def zero_pool_def acquired_def Acquire_def Dequeue_def newID_def
        Release_def Enqueue_def draws_fresh_def)
  have d: "holders (pool_exec ?ops new_run) = [1, 2, 0]"
    by (simp add: new_run_def zero_pool_def acquired_def Acquire_def Dequeue_def newID_def
        Release_def Enqueue_def draws_fresh_def)
  from pool_ids_exclusive [OF a b c] a b c d show ?thesis by simp
qed

lemma safe_run_distinct: "safe_run ops r \<Longrightarrow> distinct (holders (pool_exec ops r))"
proof (induction ops arbitrary: r)
  case Nil
  then show ?case by simp
next
  case (Cons op ops)
  then show ?case by (cases op) simp_all
qed

lemma acquire_only_run:
  "queue (pool_of r) = [] \<Longrightarrow>
   holders (pool_exec (replicate n Acquire_op) r) = holders r @ fst (newIDs n (pool_of r))
   \<and> releases_held (replicate n Acquire_op) r"
proof (induction n arbitrary: r)
  case 0
  then show ?case by simp
next
  case (Suc n)
  have a: "acquired Acquire_op (pool_of r) = newID (pool_of r)"
    using Suc.prems
    by (cases "pool_of r") (simp add: acquired_def Acquire_def Dequeue_def newID_def Let_def)
  have q: "queue (pool_of (pool_step Acquire_op r)) = []"
    using Suc.prems by (simp add: a newID_def Let_def)
  show ?case using Suc.IH [OF q]
    by (simp add: a case_prod_beta)
qed

text \<open>
  Claim C4 as stated fails once the counter has wrapped: \<open>2 ^ 32 + 1\<close> acquisitions with no
  release in between keep the caller contract, and the last one returns id \<open>0\<close>, which the
  first caller still holds.
\<close>

theorem pool_ids_shared_after_wrap:
  "releases_held (replicate (2 ^ 32 + 1) Acquire_op) new_run
   \<and> \<not> safe_run (replicate (2 ^ 32 + 1) Acquire_op) new_run"
proof -
  have q: "queue (pool_of new_run) = []" by (simp add: new_run_def zero_pool_def)
  have "\<not> distinct (fst (newIDs (2 ^ 32 + 1) (pool_of new_run)))"
    by (simp add: distinct_newIDs)
  then have "\<not> distinct (holders (pool_exec (replicate (2 ^ 32 + 1) Acquire_op) new_run))"
    using acquire_only_run [OF q, of "2 ^ 32 + 1"] by (simp add: new_run_def)
  then have "\<not> safe_run (replicate (2 ^ 32 + 1) Acquire_op) new_run"
    using safe_run_distinct by blast
  with acquire_only_run [OF q, of "2 ^ 32 + 1"] show ?thesis by blast
qed

section \<open>Growth of the slot array\<close>

lemma int_chunk:
  fixes c i :: int
  assumes "128 dvd c"
  shows "((i - c) div 128 + 1) * 128 = (i div 128 + 1) * 128 - c"
proof -
  from assms obtain a where a: "c = 128 * a" by (auto simp: dvd_def)
  have "(i - c) div 128 = i div 128 - a" unfolding a by simp
  then show ?thesis by (simp add: a algebra_simps)
qed

lemma extend_unit:
  fixes goID :: u32 and c :: int
  assumes "128 dvd c" "1024 \<le> c" "c \<le> uint goID"
  shows "uint (((goID - word_of_int c) div 128 + 1) * (128 :: u32))
         = (uint goID div 128 + 1) * 128 - c"
proof -
  have idb: "uint goID < 2 ^ 32" using uint_bounded [of goID] by simp
  have w: "uint (word_of_int c :: u32) = c"
    using assms idb by (simp add: uint_word_of_int)
  have d: "uint (goID - word_of_int c) = uint goID - c"
    using assms idb w by (simp add: uint_word_ariths)
  have q: "uint ((goID - word_of_int c) div 128) = (uint goID - c) div 128"
    by (simp add: uint_div d)
  have qb: "0 \<le> (uint goID - c) div 128" "(uint goID - c) div 128 \<le> 33554423"
    using assms idb by auto
  have q1: "uint ((goID - word_of_int c) div 128 + 1) = (uint goID - c) div 128 + 1"
    using qb by (simp add: uint_word_ariths q)
  define x :: u32 where "x = (goID - word_of_int c) div 128 + 1"
  have ux: "uint x = (uint goID - c) div 128 + 1"
    using q1 by (simp add: x_def)
  have "uint (x * 128) = uint x * 128 mod 2 ^ 32"
    by (simp add: uint_word_ariths)
  also have "\<dots> = uint x * 128"
  proof (rule mod_pos_pos_trivial)
    show "0 \<le> uint x * 128" by simp
    show "uint x * 128 < 2 ^ 32" using qb(2) unfolding ux by simp
  qed
  finally have m: "uint (((goID - word_of_int c) div 128 + 1) * (128 :: u32))
        = ((uint goID - c) div 128 + 1) * 128"
    by (simp add: ux) (simp add: x_def)
  show ?thesis by (simp only: m int_chunk [OF assms(1)])
qed


lemma extend_grows:
  assumes "slots_inv s" "curMaxGoroutineCount s < 2 ^ 32" "curMaxGoroutineCount s \<le> uint goID"
  shows "curMaxGoroutineCount (extend goID s) = (uint goID div 128 + 1) * 128"
    and "int (length (globalMaps (extend goID s))) = (uint goID div 128 + 1) * 128"
proof -
  let ?c = "curMaxGoroutineCount s"
  have c: "128 dvd ?c" "1024 \<le> ?c" "int (length (globalMaps s)) = ?c"
    using assms(1) by (simp_all add: slots_inv_def extendUnit_def initialMaxGoroutineCount_def)
  have w: "uint (word_of_int ?c :: u32) = ?c"
    using c assms(2) by (simp add: uint_word_of_int)
  have ge: "word_of_int ?c \<le> goID"
    using assms(3) w by (simp add: word_le_def)
  note u = extend_unit [OF c(1) c(2) assms(3)]
  show "curMaxGoroutineCount (extend goID s) = (uint goID div 128 + 1) * 128"
    using ge u by (simp add: extend_def Let_def extendUnit_def)
  show "int (length (globalMaps (extend goID s))) = (uint goID div 128 + 1) * 128"
    using ge u c(3) by (simp add: extend_def Let_def extendUnit_def)
qed

lemma extend_unchanged:
  assumes "slots_inv s" "curMaxGoroutineCount s < 2 ^ 32" "uint goID < curMaxGoroutineCount s"
  shows "extend goID s = s"
proof -
  let ?c = "curMaxGoroutineCount s"
  have "1024 \<le> ?c" using assms(1) by (simp add: slots_inv_def initialMaxGoroutineCount_def)
  then have w: "uint (word_of_int ?c :: u32) = ?c"
    using assms(2) by (simp add: uint_word_of_int)
  have "\<not> word_of_int ?c \<le> goID"
    using assms(3) w by (simp add: word_le_def)
  then show ?thesis by (simp add: extend_def)
qed

lemma smallest_multiple:
  fixes i :: int
  shows "128 dvd (i div 128 + 1) * 128" and "i < (i div 128 + 1) * 128"
    and "128 dvd c \<Longrightarrow> i < c \<Longrightarrow> (i div 128 + 1) * 128 \<le> c"
proof -
  show "128 dvd (i div 128 + 1) * 128" by simp
  show "i < (i div 128 + 1) * 128" by presburger
  assume "128 dvd c" "i < c"
  then obtain a where a: "c = 128 * a" by (auto simp: dvd_def)
  with \<open>i < c\<close> have "i div 128 < a"
    by (simp add: div_less_iff_less_mult mult.commute)
  then show "(i div 128 + 1) * 128 \<le> c" unfolding a by simp
qed

text \<open>
  Claim C7, as amended. While the capacity is below \<open>2 ^ 32\<close> (and the slot array is as the
  code keeps it): for an index at or beyond the capacity, \<open>extend\<close> grows the array so that
  the new capacity is the smallest multiple of the chunk size strictly greater than the
  index; for an index below the capacity, \<open>extend\<close> changes nothing.
\<close>

theorem extend_capacity:
  assumes "slots_inv s" and "curMaxGoroutineCount s < 2 ^ 32"
  shows "(curMaxGoroutineCount s \<le> uint goID \<longrightarrow>
            uint extendUnit dvd curMaxGoroutineCount (extend goID s)
          \<and> uint goID < curMaxGoroutineCount (extend goID s)
          \<and> (\<forall>c. uint extendUnit dvd c \<and> uint goID < c
                 \<longrightarrow> curMaxGoroutineCount (extend goID s) \<le> c)
          \<and> int (length (globalMaps (extend goID s))) = curMaxGoroutineCount (extend goID s))
       \<and> (uint goID < curMaxGoroutineCount s \<longrightarrow> extend goID s = s)"
  using extend_grows [OF assms] extend_unchanged [OF assms] smallest_multiple [where i = "uint goID"]
  by (simp add: extendUnit_def)

text \<open>The initial array, extended for index \<open>1024 + 10 * 128\<close> and for index \<open>1023\<close>.\<close>

theorem extend_capacity_witness:
  "slots_inv (init_state :: (nat, nat) state)
   \<and> curMaxGoroutineCount (init_state :: (nat, nat) state) < 2 ^ 32
   \<and> curMaxGoroutineCount (extend 2304 (init_state :: (nat, nat) state)) = 2432
   \<and> extend 1023 (init_state :: (nat, nat) state) = init_state"
proof -
  have a: "slots_inv (init_state :: (nat, nat) state)"
    by (simp add: slots_inv_def init_state_def initialMaxGoroutineCount_def extendUnit_def)
  have b: "curMaxGoroutineCount (init_state :: (nat, nat) state) < 2 ^ 32"
    by (simp add: init_state_def initialMaxGoroutineCount_def)
  have c: "curMaxGoroutineCount (extend 2304 (init_state :: (nat, nat) state)) = 2432"
    by (simp add: extend_def init_state_def initialMaxGoroutineCount_def extendUnit_def Let_def)
  from extend_capacity [OF a b, of 1023] a b c show ?thesis
    by (simp add: init_state_def initialMaxGoroutineCount_def)
qed

text \<open>
  Claim C7 as stated fails at capacity \<open>2 ^ 32\<close>, reached by extending the initial array for
  index \<open>2 ^ 32 - 1\<close>: there \<^verbatim>\<open>uint32(curMaxGoroutineCount)\<close> is \<open>0\<close>, and \<open>extend\<close> grows the array
  for index \<open>0\<close>, which is below the capacity.
\<close>

theorem extend_past_uint32:
  "uint (0 :: u32) < curMaxGoroutineCount (extend (- 1) (init_state :: (nat, nat) state))
   \<and> curMaxGoroutineCount (extend 0 (extend (- 1) (init_state :: (nat, nat) state)))
       \<noteq> curMaxGoroutineCount (extend (- 1) (init_state :: (nat, nat) state))"
proof -
  have a: "curMaxGoroutineCount (extend (- 1) (init_state :: (nat, nat) state)) = 4294967296"
    by (simp add: extend_def init_state_def initialMaxGoroutineCount_def extendUnit_def Let_def)
  have "curMaxGoroutineCount (extend 0 (extend (- 1) (init_state :: (nat, nat) state)))
        = 4294967424"
    unfolding extend_def [of 0] by (simp add: a extendUnit_def Let_def)
  with a show ?thesis by simp
qed

section \<open>Scoped bindings of a context manager\<close>

lemma frame_refl: "frame s s"
  by (simp add: frame_def)

lemma frame_trans: "frame s s1 \<Longrightarrow> frame s1 s2 \<Longrightarrow> frame s s2"
  by (auto simp: frame_def)

lemma frame_heap_ok: "heap_ok s \<Longrightarrow> frame s s' \<Longrightarrow> heap_ok s'"
  unfolding heap_ok_def frame_def by (metis less_le_trans)

lemma state_of_simps [simp]:
  "state_of (Returns a s) = s" "state_of (Panics p s) = s"
  by (simp_all add: state_of_def)

lemma state_of_deferred [simp]: "state_of (deferred d r) = d (state_of r)"
  by (cases r) (simp_all add: deferred_def)

lemma panic_of_deferred [simp]: "panic_of (deferred d r) = panic_of r"
  by (cases r) (simp_all add: deferred_def panic_of_def)

lemma bind_loop_keys:
  "fst (bind_loop B (mk, mv, st)) = mk @ map fst B"
  by (induction B arbitrary: mk mv st) auto

lemma bind_loop_state:
  "distinct (map fst B) \<Longrightarrow>
   map_of (snd (snd (bind_loop B (mk, mv, st)))) k =
     (case map_of B k of Some v \<Rightarrow> Some v | None \<Rightarrow> map_of st k)"
proof (induction B arbitrary: mk mv st)
  case Nil
  then show ?case by simp
next
  case (Cons b B)
  obtain k0 v0 where b: "b = (k0, v0)" by (cases b)
  from Cons.prems b have k0: "k0 \<notin> fst ` set B" and d: "distinct (map fst B)" by auto
  from k0 have n: "map_of B k0 = None" by (simp add: map_of_eq_None_iff)
  show ?case using n
    by (auto simp: b Cons.IH [OF d] update_conv' split: option.splits)
qed

lemma bind_loop_saved:
  "distinct (map fst B) \<Longrightarrow>
   map_of (fst (snd (bind_loop B (mk, mv, st)))) k =
     (if k \<in> fst ` set B
      then (case map_of st k of Some v \<Rightarrow> Some v | None \<Rightarrow> map_of mv k)
      else map_of mv k)"
proof (induction B arbitrary: mk mv st)
  case Nil
  then show ?case by simp
next
  case (Cons b B)
  obtain k0 v0 where b: "b = (k0, v0)" by (cases b)
  from Cons.prems b have k0: "k0 \<notin> fst ` set B" and d: "distinct (map fst B)" by auto
  show ?case using k0
    by (auto simp: b Cons.IH [OF d] update_conv' split: option.splits)
qed

lemma restore_loop_map:
  "map_of (restore_loop ks mv st) k = (if k \<in> set ks then map_of mv k else map_of st k)"
proof (induction ks arbitrary: st)
  case Nil
  then show ?case by simp
next
  case (Cons k0 ks)
  show ?case
    by (auto simp: Cons.IH update_conv' delete_conv' split: option.splits)
qed

lemma bind_restore:
  assumes "distinct (map fst B)"
    and "bind_loop B ([], [], st) = (mk, mv, st')"
    and "map_of c = map_of st'"
  shows "map_of (restore_loop mk mv c) = map_of st"
proof (rule ext)
  fix k
  have mk: "mk = map fst B" using bind_loop_keys [of B "[]" "[]" st] assms(2) by simp
  have mv: "map_of mv k = (if k \<in> fst ` set B then map_of st k else None)"
    using bind_loop_saved [OF assms(1), of "[]" "[]" st k] assms(2)
    by (simp split: option.splits)
  have st': "map_of st' k = (case map_of B k of Some v \<Rightarrow> Some v | None \<Rightarrow> map_of st k)"
    using bind_loop_state [OF assms(1), of "[]" "[]" st k] assms(2) by simp
  show "map_of (restore_loop mk mv c) k = map_of st k"
  proof (cases "k \<in> fst ` set B")
    case True
    then show ?thesis by (simp add: restore_loop_map mk mv)
  next
    case False
    then have "map_of B k = None" by (simp add: map_of_eq_None_iff)
    with False show ?thesis
      by (simp add: restore_loop_map mk assms(3) st')
  qed
qed


lemma SetValues_body_found:
  assumes C: "neutral C" and B: "distinct (map fst B)" and ok: "heap_ok s"
    and r: "mgr_values (mgrs s m) g = Some r"
  shows "frame s (state_of (SetValues_body m B C g s))"
proof -
  obtain mk mv st' where bl: "bind_loop B ([], [], cells s r) = (mk, mv, st')"
    by (metis prod_cases3)
  define s2 where "s2 = s\<lparr>cells := (cells s)(r := st')\<rparr>"
  have b: "SetValues_bind m g B s = ((True, r, mk, mv), s2)"
    using r bl by (simp add: SetValues_bind_def Let_def s2_def)
  have rlt: "r < next_cell s" using ok r by (auto simp: heap_ok_def)
  have ok2: "heap_ok s2" using ok by (simp add: s2_def heap_ok_def)
  define s3 where "s3 = state_of (C s2)"
  have f23: "frame s2 s3" using C ok2 by (simp add: neutral_def s3_def)
  define s4 where
    "s4 = s3\<lparr>cells := (cells s3)(r := restore_loop mk mv (cells s3 r))\<rparr>"
  have res: "state_of (SetValues_body m B C g s) = s4"
    by (simp add: SetValues_body_def b SetValues_restore_def s4_def s3_def)
  have c3: "map_of (cells s3 r) = map_of st'"
    using f23 rlt by (simp add: frame_def s2_def)
  have rst: "map_of (restore_loop mk mv (cells s3 r)) = map_of (cells s r)"
    using B bl c3 by (rule bind_restore)
  have "frame s s4"
    unfolding frame_def
  proof (intro conjI allI impI)
    show "mgrs s4 = mgrs s" using f23 by (simp add: s4_def frame_def s2_def)
    show "gid s4 = gid s" using f23 by (simp add: s4_def frame_def s2_def)
    show "next_cell s \<le> next_cell s4" using f23 by (simp add: s4_def frame_def s2_def)
    fix r' assume "r' < next_cell s"
    then show "map_of (cells s4 r') = map_of (cells s r')"
      using f23 rst by (simp add: s4_def frame_def s2_def)
  qed
  then show ?thesis by (simp add: res)
qed

lemma SetValues_body_new:
  assumes C: "neutral C" and B: "distinct (map fst B)" and ok: "heap_ok s"
    and r: "mgr_values (mgrs s m) g = None"
  shows "frame s (state_of (SetValues_body m B C g s))"
proof -
  let ?r = "next_cell s"
  obtain mk mv st' where bl: "bind_loop B ([], [], []) = (mk, mv, st')"
    by (metis prod_cases3)
  define s2 where
    "s2 = s\<lparr>cells := (cells s)(?r := st'), next_cell := Suc ?r,
            mgrs := (mgrs s)(m := (mgrs s m)\<lparr>mgr_values := (mgr_values (mgrs s m))(g \<mapsto> ?r)\<rparr>)\<rparr>"
  have b: "SetValues_bind m g B s = ((False, ?r, mk, mv), s2)"
    using r bl by (simp add: SetValues_bind_def Let_def s2_def)
  have ok2: "heap_ok s2"
    using ok r unfolding heap_ok_def s2_def
    by (auto simp: less_Suc_eq split: if_splits)
  define s3 where "s3 = state_of (C s2)"
  have f23: "frame s2 s3" using C ok2 by (simp add: neutral_def s3_def)
  define s4 where
    "s4 = s3\<lparr>mgrs := (mgrs s3)(m := (mgrs s3 m)\<lparr>mgr_values := (mgr_values (mgrs s3 m))(g := None)\<rparr>)\<rparr>"
  have res: "state_of (SetValues_body m B C g s) = s4"
    by (simp add: SetValues_body_def b SetValues_restore_def s4_def s3_def)
  have m3: "mgrs s3 = mgrs s2" using f23 by (simp add: frame_def)
  have "(mgr_values (mgrs s m))(g := None) = mgr_values (mgrs s m)"
    using r by (simp add: fun_upd_idem_iff)
  then have m4: "mgrs s4 = mgrs s"
    by (simp add: s4_def m3 s2_def)
  have "frame s s4"
    unfolding frame_def
  proof (intro conjI allI impI)
    show "mgrs s4 = mgrs s" by (rule m4)
    show "gid s4 = gid s" using f23 by (simp add: s4_def frame_def s2_def)
    show "next_cell s \<le> next_cell s4" using f23 by (simp add: s4_def frame_def s2_def)
    fix r' assume "r' < next_cell s"
    then show "map_of (cells s4 r') = map_of (cells s r')"
      using f23 by (simp add: s4_def frame_def s2_def)
  qed
  then show ?thesis by (simp add: res)
qed

lemma SetValues_body_frame:
  "neutral C \<Longrightarrow> distinct (map fst B) \<Longrightarrow> heap_ok s
   \<Longrightarrow> frame s (state_of (SetValues_body m B C g s))"
  by (cases "mgr_values (mgrs s m) g") (simp_all add: SetValues_body_new SetValues_body_found)

lemma EnsureGoroutineId_frame:
  assumes cb: "\<And>g s1. heap_ok s1 \<Longrightarrow> frame s1 (state_of (cb g s1))" and ok: "heap_ok s"
  shows "frame s (state_of (EnsureGoroutineId cb s))"
proof (cases "gid s")
  case (Some g)
  then show ?thesis using cb [OF ok] by (simp add: EnsureGoroutineId_def GetGoroutineId_def)
next
  case None
  obtain g p' where a: "Acquire (pool s) = (g, p')" by (cases "Acquire (pool s)")
  define s1 where "s1 = s\<lparr>pool := p', gid := Some g\<rparr>"
  have ok1: "heap_ok s1" using ok by (simp add: s1_def heap_ok_def)
  have f: "frame s1 (state_of (cb g s1))" using ok1 by (rule cb)
  have "state_of (EnsureGoroutineId cb s) = release_gid g (state_of (cb g s1))"
    using None a by (simp add: EnsureGoroutineId_def GetGoroutineId_def s1_def)
  then show ?thesis using f None
    by (simp add: frame_def release_gid_def s1_def)
qed

lemma SetValues_neutral:
  assumes "neutral C" and "distinct (map fst B)"
  shows "neutral (SetValues m B C)"
  unfolding neutral_def
proof (intro allI impI)
  fix s :: "('a, 'b) state" assume ok: "heap_ok s"
  show "frame s (state_of (SetValues m B C s))"
  proof (cases "B = []")
    case True
    then show ?thesis using assms(1) ok by (simp add: SetValues_def neutral_def)
  next
    case False
    then show ?thesis
      using EnsureGoroutineId_frame [of "SetValues_body m B C" s, OF SetValues_body_frame [OF assms] ok]
      by (simp add: SetValues_def)
  qed
qed


lemma state_of_discard [simp]: "state_of (discard r) = state_of r"
  by (cases r) (simp_all add: discard_def)

lemma state_of_recovered [simp]: "state_of (recovered r) = state_of r"
  by (cases r) (simp_all add: recovered_def)

lemma extend_frame: "frame s (extend goID s)"
  by (simp add: extend_def Let_def frame_def)

lemma WrapWithGLS_body_frame:
  assumes "neutral f" and "heap_ok s"
  shows "frame s (state_of (WrapWithGLS_body f goID s))"
proof -
  define s1 where
    "s1 = (if goID \<ge> word_of_int (curMaxGoroutineCount s) then extend goID s else s)"
  have f1: "frame s s1" by (simp add: s1_def extend_frame frame_refl)
  show ?thesis
  proof (cases "unat goID < length (globalMaps s1)")
    case True
    define s2 where "s2 = s1\<lparr>globalMaps := (globalMaps s1)[unat goID := Some []]\<rparr>"
    have f2: "frame s s2" using f1 by (simp add: s2_def frame_def)
    with assms(2) have "heap_ok s2" by (rule frame_heap_ok)
    with assms(1) have "frame s2 (state_of (f s2))" by (simp add: neutral_def)
    with f2 have "frame s (state_of (f s2))" by (rule frame_trans)
    then show ?thesis using True
      by (simp add: WrapWithGLS_body_def Let_def s1_def [symmetric] s2_def)
  next
    case False
    then show ?thesis using f1
      by (simp add: WrapWithGLS_body_def Let_def s1_def [symmetric])
  qed
qed

lemma WrapWithGLS_neutral: "neutral f \<Longrightarrow> neutral (WrapWithGLS f)"
  unfolding neutral_def WrapWithGLS_def
  using EnsureGoroutineId_frame [of "WrapWithGLS_body f"] WrapWithGLS_body_frame [of f]
  by (simp add: neutral_def)

lemma Set_frame: "frame s (state_of (Set key val s))"
  by (simp add: Set_def getGLS_def GetGoroutineId_def frame_def split: option.splits)

lemma Get_frame: "frame s (state_of (Get key s))"
  by (simp add: Get_def getGLS_def GetGoroutineId_def frame_def split: option.splits)

lemma Go_frame: "frame s (state_of (Go cb s))"
  by (simp add: Go_def frame_def)

lemma execs_neutral:
  "(\<And>c. c \<in> set cs \<Longrightarrow> neutral (exec c)) \<Longrightarrow> neutral (execs cs)"
proof (induction cs)
  case Nil
  then show ?case by (simp add: neutral_def frame_refl)
next
  case (Cons c cs)
  have c: "neutral (exec c)" and cs: "neutral (execs cs)"
    using Cons by simp_all
  show ?case
    unfolding neutral_def
  proof (intro allI impI)
    fix s :: "('a, 'b) state" assume ok: "heap_ok s"
    from c ok have f1: "frame s (state_of (exec c s))" by (simp add: neutral_def)
    show "frame s (state_of (execs (c # cs) s))"
    proof (cases "exec c s")
      case (Returns u s')
      with f1 have f: "frame s s'" by simp
      with ok have "heap_ok s'" by (rule frame_heap_ok)
      with cs have "frame s' (state_of (execs cs s'))" by (simp add: neutral_def)
      with f show ?thesis using Returns by (simp add: frame_trans then_do_def)
    next
      case (Panics p s')
      with f1 show ?thesis by (simp add: then_do_def)
    qed
  qed
qed

lemma exec_neutral: "neutral (exec c)"
proof (induction c)
  case (CSetValues m B body)
  then have "neutral (execs body)" by (simp add: execs_neutral)
  then show ?case by (simp add: SetValues_neutral)
next
  case (CGetValue m k)
  then show ?case by (simp add: neutral_def frame_def split: prod.splits)
next
  case (CGo body)
  then show ?case by (simp add: neutral_def Go_frame)
next
  case (CUnregister m)
  then show ?case by (simp add: neutral_def Unregister_def frame_def)
next
  case (CWrapWithGLS body)
  then have "neutral (execs body)" by (simp add: execs_neutral)
  then show ?case by (simp add: WrapWithGLS_neutral)
next
  case (CSet key val)
  then show ?case by (simp add: neutral_def Set_frame)
next
  case (CGet key)
  then show ?case by (simp add: neutral_def Get_frame)
next
  case CPanic
  then show ?case by (simp add: neutral_def frame_refl)
next
  case (CRecover body)
  then have "neutral (execs body)" by (simp add: execs_neutral)
  then show ?case by (simp add: neutral_def)
qed

lemma execs_body_neutral: "neutral (execs body)"
  by (simp add: execs_neutral exec_neutral)

lemma deferred_deferred: "deferred d1 (deferred d2 r) = deferred (d1 \<circ> d2) r"
  by (cases r) (simp_all add: deferred_def)

lemma SetValues_callback:
  assumes "B \<noteq> []"
  shows "\<exists>d. \<forall>C. SetValues m B C s = deferred d (C (callback_state m B s))"
proof (cases "gid s")
  case (Some g)
  obtain fr s2 where b: "SetValues_bind m g B s = (fr, s2)" by (cases "SetValues_bind m g B s")
  have "\<forall>C. SetValues m B C s = deferred (SetValues_restore m g fr) (C (callback_state m B s))"
    using assms Some b
    by (simp add: SetValues_def EnsureGoroutineId_def GetGoroutineId_def SetValues_body_def
        callback_state_def ensured_def)
  then show ?thesis by blast
next
  case None
  obtain g p' where a: "Acquire (pool s) = (g, p')" by (cases "Acquire (pool s)")
  define s1 where "s1 = s\<lparr>pool := p', gid := Some g\<rparr>"
  obtain fr s2 where b: "SetValues_bind m g B s1 = (fr, s2)" by (cases "SetValues_bind m g B s1")
  have "\<forall>C. SetValues m B C s
          = deferred (release_gid g \<circ> SetValues_restore m g fr) (C (callback_state m B s))"
    using assms None a b
    by (simp add: SetValues_def EnsureGoroutineId_def GetGoroutineId_def SetValues_body_def
        callback_state_def ensured_def s1_def [symmetric] deferred_deferred)
  then show ?thesis by blast
qed

lemma GetValue_frame:
  assumes "heap_ok s" and "frame s s'"
  shows "GetValue m k s' = GetValue m k s"
proof (cases "gid s")
  case None
  then show ?thesis using assms(2) by (simp add: GetValue_def GetGoroutineId_def frame_def)
next
  case (Some g)
  show ?thesis
  proof (cases "mgr_values (mgrs s m) g")
    case None
    then show ?thesis using Some assms(2)
      by (simp add: GetValue_def GetGoroutineId_def frame_def)
  next
    case (Some r)
    then have "r < next_cell s" using assms(1) by (auto simp: heap_ok_def)
    then have "map_of (cells s' r) = map_of (cells s r)" using assms(2) by (simp add: frame_def)
    then show ?thesis using Some \<open>gid s = Some g\<close> assms(2)
      by (simp add: GetValue_def GetGoroutineId_def frame_def)
  qed
qed

lemma ensured_props:
  assumes "heap_ok s" and "ensured s = (g, s1)"
  shows "heap_ok s1" and "gid s1 = Some g" and "gid s \<noteq> None \<Longrightarrow> s1 = s"
  using assms
  by (auto simp: ensured_def heap_ok_def split: option.splits prod.splits)

lemma bind_props:
  assumes ok: "heap_ok s" and g: "gid s = Some g" and B: "distinct (map fst B)"
  shows "heap_ok (snd (SetValues_bind m g B s))"
    and "gid (snd (SetValues_bind m g B s)) = Some g"
    and "GetValue m' k (snd (SetValues_bind m g B s)) =
           (if m' = m
            then (case map_of B k of Some v \<Rightarrow> (v, True) | None \<Rightarrow> GetValue m' k s)
            else GetValue m' k s)"
proof -
  let ?s2 = "snd (SetValues_bind m g B s)"
  show "heap_ok ?s2"
    using ok unfolding heap_ok_def SetValues_bind_def Let_def
    by (auto simp: case_prod_beta less_Suc_eq split: if_splits option.splits)
  show "gid ?s2 = Some g"
    using g by (simp add: SetValues_bind_def Let_def case_prod_beta)
  show "GetValue m' k ?s2 =
           (if m' = m
            then (case map_of B k of Some v \<Rightarrow> (v, True) | None \<Rightarrow> GetValue m' k s)
            else GetValue m' k s)"
  proof (cases "mgr_values (mgrs s m) g")
    case None
    have fresh: "\<And>m'' g''. mgr_values (mgrs s m'') g'' \<noteq> Some (next_cell s)"
      using ok by (auto simp: heap_ok_def)
    show ?thesis
      using None g fresh bind_loop_state [OF B, of "[]" "[]" "[]" k]
      by (auto simp: SetValues_bind_def Let_def case_prod_beta GetValue_def GetGoroutineId_def
          split: option.splits)
  next
    case (Some r)
    have noal: "\<And>m''. m'' \<noteq> m \<Longrightarrow> mgr_values (mgrs s m'') g \<noteq> Some r"
      using ok Some by (auto simp: heap_ok_def)
    show ?thesis
      using Some g noal bind_loop_state [OF B, of "[]" "[]" "cells s r" k]
      by (auto simp: SetValues_bind_def Let_def case_prod_beta GetValue_def GetGoroutineId_def
          split: option.splits)
  qed
qed

lemma callback_state_props:
  assumes ok: "heap_ok s" and B: "distinct (map fst B)"
  shows "heap_ok (callback_state m B s)"
    and "gid (callback_state m B s) \<noteq> None"
    and "map_of B k = Some v \<Longrightarrow> GetValue m k (callback_state m B s) = (v, True)"
    and "gid s \<noteq> None \<Longrightarrow> GetValue m' k (callback_state m B s) =
           (if m' = m
            then (case map_of B k of Some v \<Rightarrow> (v, True) | None \<Rightarrow> GetValue m' k s)
            else GetValue m' k s)"
proof -
  obtain g s1 where e: "ensured s = (g, s1)" by (cases "ensured s")
  note p = ensured_props [OF ok e]
  have cs: "callback_state m B s = snd (SetValues_bind m g B s1)"
    by (simp add: callback_state_def e)
  note b = bind_props [OF p(1) p(2) B]
  show "heap_ok (callback_state m B s)" by (simp add: cs b(1))
  show "gid (callback_state m B s) \<noteq> None" by (simp add: cs b(2))
  show "map_of B k = Some v \<Longrightarrow> GetValue m k (callback_state m B s) = (v, True)"
    by (simp add: cs b(3))
  show "gid s \<noteq> None \<Longrightarrow> GetValue m' k (callback_state m B s) =
           (if m' = m
            then (case map_of B k of Some v \<Rightarrow> (v, True) | None \<Rightarrow> GetValue m' k s)
            else GetValue m' k s)"
  proof -
    assume "gid s \<noteq> None"
    then have "s1 = s" by (rule p(3))
    with b(3) [where m' = m' and m = m and k = k] show ?thesis by (auto simp: cs)
  qed
qed

lemmas run_defs =
  SetValues_def SetValues_body_def SetValues_bind_def SetValues_restore_def
  EnsureGoroutineId_def GetGoroutineId_def release_gid_def Acquire_def Dequeue_def newID_def
  Release_def Enqueue_def deferred_def GetValue_def getValues_def callback_state_def
  ensured_def init_state_def zero_pool_def initialMaxGoroutineCount_def Let_def
  discard_def recovered_def panic_of_def then_do_def

lemma heap_ok_init: "heap_ok (init_state :: ('k, 'v) state)"
  by (simp add: heap_ok_def init_state_def)

text \<open>
  Claim C9. With empty bindings, \<open>SetValues\<close> is the callback and nothing else: the callback
  is invoked once, on the unchanged state; no identity is acquired and no manager is
  touched.
\<close>

theorem SetValues_empty: "SetValues m [] C s = C s"
  by (simp add: SetValues_def)

text \<open>A panicking callback under empty bindings.\<close>

theorem SetValues_empty_witness:
  "SetValues 0 [] (execs [CPanic]) (init_state :: (nat, nat) state) = Panics UserPanic init_state"
  using SetValues_empty [of 0 "execs [CPanic]" "init_state :: (nat, nat) state"]
  by (simp add: then_do_def)

text \<open>
  Claim C1. After \<open>SetValues m B C\<close> has returned or panicked, for every callback \<open>C\<close> built
  from the package's operations, \<open>GetValue\<close> returns for every key (of \<open>B\<close> or not, in every
  manager) exactly what it returned before the call; the nested calls inside \<open>C\<close> have
  restored their own keys first. The slot tables are as before: a slot created for the
  call is deleted, none is left behind, and the goroutine's identity is as before.
\<close>

theorem SetValues_restores:
  assumes "heap_ok s" and "distinct (map fst B)"
  shows "GetValue m' k (state_of (SetValues m B (execs body) s)) = GetValue m' k s
       \<and> getValues m' (state_of (SetValues m B (execs body) s)) = getValues m' s
       \<and> mgrs (state_of (SetValues m B (execs body) s)) = mgrs s
       \<and> gid (state_of (SetValues m B (execs body) s)) = gid s"
proof -
  have "neutral (SetValues m B (execs body))"
    using execs_body_neutral assms(2) by (rule SetValues_neutral)
  with assms(1) have f: "frame s (state_of (SetValues m B (execs body) s))"
    by (simp add: neutral_def)
  from f have "mgrs (state_of (SetValues m B (execs body) s)) = mgrs s"
    and "gid (state_of (SetValues m B (execs body) s)) = gid s"
    by (simp_all add: frame_def)
  with GetValue_frame [OF assms(1) f] show ?thesis
    by (simp add: getValues_def GetGoroutineId_def split: option.splits)
qed

text \<open>
  A call inside an outer scope that binds key \<open>1\<close> to \<open>10\<close>: it binds keys \<open>1\<close> and \<open>2\<close>, its
  callback panics, and afterwards key \<open>1\<close> is \<open>10\<close> again and key \<open>2\<close> is absent.
\<close>

theorem SetValues_restores_witness:
  "heap_ok (callback_state 0 [(1, Iface 10)] (init_state :: (nat, nat) state))
   \<and> distinct (map fst [(1 :: nat, Iface (20 :: nat)), (2, Iface 30)])
   \<and> GetValue 0 1 (callback_state 0 [(1, Iface 10)] (init_state :: (nat, nat) state))
       = (Iface 10, True)
   \<and> panic_of (SetValues 0 [(1, Iface 20), (2, Iface 30)] (execs [CGetValue 0 1, CPanic])
        (callback_state 0 [(1, Iface 10)] (init_state :: (nat, nat) state))) = Some UserPanic
   \<and> GetValue 0 1 (state_of (SetValues 0 [(1, Iface 20), (2, Iface 30)]
        (execs [CGetValue 0 1, CPanic])
        (callback_state 0 [(1, Iface 10)] (init_state :: (nat, nat) state)))) = (Iface 10, True)
   \<and> GetValue 0 2 (state_of (SetValues 0 [(1, Iface 20), (2, Iface 30)]
        (execs [CGetValue 0 1, CPanic])
        (callback_state 0 [(1, Iface 10)] (init_state :: (nat, nat) state)))) = (IfaceNil, False)"
proof -
  let ?s1 = "callback_state 0 [(1, Iface 10)] (init_state :: (nat, nat) state)"
  let ?B = "[(1 :: nat, Iface (20 :: nat)), (2, Iface 30)]"
  let ?body = "[CGetValue 0 1, CPanic] :: (nat, nat) cmd list"
  have a: "heap_ok ?s1"
    by (simp add: heap_ok_def run_defs)
  have b: "distinct (map fst ?B)" by simp
  have c: "GetValue 0 1 ?s1 = (Iface 10, True)" "GetValue 0 2 ?s1 = (IfaceNil, False)"
    by (simp_all add: run_defs)
  have d: "panic_of (SetValues 0 ?B (execs ?body) ?s1) = Some UserPanic"
    by (simp add: run_defs)
  from SetValues_restores [OF a b, of 0 1 0 ?body] SetValues_restores [OF a b, of 0 2 0 ?body]
    a b c d
  show ?thesis by simp
qed



subsection \<open>Visibility inside the callback\<close>

lemma gls_state_frame:
  assumes "gid s \<noteq> None" and "gls_state s = Some s'"
  shows "frame s s'"
proof -
  from assms(1) obtain g where g: "gid s = Some g" by auto
  then have e: "ensured s = (g, s)" by (simp add: ensured_def)
  show ?thesis using assms(2) extend_frame [of s g]
    by (auto simp: gls_state_def e Let_def frame_def split: if_splits)
qed

lemma inside_same:
  assumes "heap_ok s0" and "gid s0 \<noteq> None" and "inside m k s0 s"
  shows "heap_ok s \<and> gid s \<noteq> None \<and> GetValue m k s = GetValue m k s0"
  using assms(3)
proof (induction rule: inside.induct)
  case inside_start
  then show ?case using assms(1,2) by simp
next
  case (inside_step s1 c s2)
  have "frame s1 (state_of (exec c s1))"
    using exec_neutral [of c] inside_step.IH by (auto simp: neutral_def)
  then have f: "frame s1 s2" by (simp add: inside_step.hyps)
  with inside_step.IH show ?case
    using frame_heap_ok [of s1 s2] GetValue_frame [of s1 s2 m k] by (auto simp: frame_def)
next
  case (inside_wrap s1 s2)
  then have f: "frame s1 s2" by (simp add: gls_state_frame)
  with inside_wrap.IH show ?case
    using frame_heap_ok [of s1 s2] GetValue_frame [of s1 s2 m k] by (auto simp: frame_def)
next
  case (inside_scope s1 B2 m2)
  then have ok: "heap_ok s1" and g: "gid s1 \<noteq> None" by simp_all
  note p = callback_state_props [OF ok inside_scope.hyps(2), where m = m2]
  have "map_of B2 k = None" if "m2 = m"
    using that inside_scope.hyps(4) by (simp add: map_of_eq_None_iff)
  then have "GetValue m k (callback_state m2 B2 s1) = GetValue m k s1"
    using p(4) [OF g, of m k] by auto
  with inside_scope.IH p(1,2) show ?case by simp
qed

text \<open>
  Claim C2. For non-empty bindings \<open>B\<close> and a key \<open>k\<close> bound to \<open>v\<close> in \<open>B\<close>: \<open>SetValues m B C\<close>
  invokes \<open>C\<close> once, in the state \<open>callback_state m B s\<close>, and at every point \<open>s1\<close> inside the
  execution of \<open>C\<close> (also inside nested \<open>SetValues\<close> calls that do not bind \<open>k\<close> in \<open>m\<close> again)
  \<open>GetValue m k\<close> returns \<open>(v, True)\<close>. A nested \<open>SetValues\<close> of the same manager that binds \<open>k\<close>
  to \<open>v2\<close> shows \<open>(v2, True)\<close> at every point inside its own callback, and after any nested
  \<open>SetValues\<close> has returned or panicked \<open>GetValue m k\<close> returns \<open>(v, True)\<close> again.
\<close>

theorem SetValues_visible:
  assumes "heap_ok s" and "distinct (map fst B)" and "B \<noteq> []" and "(k, v) \<in> set B"
    and "inside m k (callback_state m B s) s1"
  shows "(\<exists>d. \<forall>C. SetValues m B C s = deferred d (C (callback_state m B s)))
       \<and> GetValue m k s1 = (v, True)
       \<and> (\<forall>B2 v2 s2.
             distinct (map fst B2) \<and> (k, v2) \<in> set B2 \<and> inside m k (callback_state m B2 s1) s2
             \<longrightarrow> GetValue m k s2 = (v2, True))
       \<and> (\<forall>m2 B2 body2.
             distinct (map fst B2)
             \<longrightarrow> GetValue m k (state_of (SetValues m2 B2 (execs body2) s1)) = (v, True))"
proof -
  have vis: "GetValue m k s' = (v', True)"
    if ok: "heap_ok s0" and B': "distinct (map fst B')" and kv: "(k, v') \<in> set B'"
      and ins: "inside m k (callback_state m B' s0) s'"
    for s0 s' :: "('a, 'b) state" and B' v'
  proof -
    note p = callback_state_props [OF ok B', where m = m]
    have "map_of B' k = Some v'" using B' kv by simp
    then have "GetValue m k (callback_state m B' s0) = (v', True)" by (rule p(3))
    with inside_same [OF p(1) p(2) ins] show ?thesis by simp
  qed
  note p = callback_state_props [OF assms(1,2), where m = m]
  note q = inside_same [OF p(1) p(2) assms(5)]
  have a: "\<exists>d. \<forall>C. SetValues m B C s = deferred d (C (callback_state m B s))"
    using assms(3) by (rule SetValues_callback)
  have b: "GetValue m k s1 = (v, True)"
    using assms(1,2,4,5) by (rule vis)
  have c: "GetValue m k s2 = (v2, True)"
    if "distinct (map fst B2)" "(k, v2) \<in> set B2" "inside m k (callback_state m B2 s1) s2"
    for B2 v2 s2
  proof -
    from q have "heap_ok s1" by simp
    then show ?thesis using that by (rule vis)
  qed
  have d: "GetValue m k (state_of (SetValues m2 B2 (execs body2) s1)) = (v, True)"
    if B2: "distinct (map fst B2)" for m2 B2 body2
  proof -
    have "neutral (SetValues m2 B2 (execs body2))"
      using execs_body_neutral B2 by (rule SetValues_neutral)
    moreover from q have ok1: "heap_ok s1" by simp
    ultimately have "frame s1 (state_of (SetValues m2 B2 (execs body2) s1))"
      by (simp add: neutral_def)
    with ok1 have "GetValue m k (state_of (SetValues m2 B2 (execs body2) s1)) = GetValue m k s1"
      by (rule GetValue_frame)
    with b show ?thesis by simp
  qed
  from a b c d show ?thesis by blast
qed


lemma returns_state: "panic_of r = None \<Longrightarrow> r = Returns () (state_of r)"
  by (cases r) (simp_all add: panic_of_def)

text \<open>
  Key \<open>1\<close> bound to \<open>10\<close> from the initial state. The callback runs a nested call that binds
  key \<open>2\<close>, reads key \<open>1\<close> (the read returns \<open>10\<close>) and panics; the panic is recovered.
  Then key \<open>1\<close> is still \<open>10\<close>, a nested call binding key \<open>1\<close> to \<open>20\<close> shows \<open>20\<close>, and after
  it key \<open>1\<close> is \<open>10\<close> again.
\<close>

theorem SetValues_visible_witness:
  "heap_ok (init_state :: (nat, nat) state)
   \<and> distinct (map fst [(1 :: nat, Iface (10 :: nat))])
   \<and> (1, Iface 10) \<in> set [(1 :: nat, Iface (10 :: nat))]
   \<and> inside 0 1 (callback_state 0 [(1, Iface 10)] (init_state :: (nat, nat) state))
        (state_of (exec (CRecover [CSetValues 0 [(2, Iface 5)] [CGetValue 0 1, CPanic]])
           (callback_state 0 [(1, Iface 10)] (init_state :: (nat, nat) state))))
   \<and> observed (state_of (exec (CRecover [CSetValues 0 [(2, Iface 5)] [CGetValue 0 1, CPanic]])
           (callback_state 0 [(1, Iface 10)] (init_state :: (nat, nat) state))))
       = [(0, 1, Iface 10, True)]
   \<and> GetValue 0 1 (state_of (exec (CRecover [CSetValues 0 [(2, Iface 5)] [CGetValue 0 1, CPanic]])
           (callback_state 0 [(1, Iface 10)] (init_state :: (nat, nat) state))))
       = (Iface 10, True)
   \<and> GetValue 0 1 (callback_state 0 [(1, Iface 20)]
        (state_of (exec (CRecover [CSetValues 0 [(2, Iface 5)] [CGetValue 0 1, CPanic]])
           (callback_state 0 [(1, Iface 10)] (init_state :: (nat, nat) state)))))
       = (Iface 20, True)
   \<and> GetValue 0 1 (state_of (SetValues 0 [(1, Iface 20)] (execs [])
        (state_of (exec (CRecover [CSetValues 0 [(2, Iface 5)] [CGetValue 0 1, CPanic]])
           (callback_state 0 [(1, Iface 10)] (init_state :: (nat, nat) state))))))
       = (Iface 10, True)"
proof -
  let ?s0 = "callback_state 0 [(1, Iface 10)] (init_state :: (nat, nat) state)"
  let ?c = "CRecover [CSetValues 0 [(2, Iface 5)] [CGetValue 0 1, CPanic]] :: (nat, nat) cmd"
  let ?s1 = "state_of (exec ?c ?s0)"
  have a: "heap_ok (init_state :: (nat, nat) state)" by (rule heap_ok_init)
  have b: "distinct (map fst [(1 :: nat, Iface (10 :: nat))])" by simp
  have c: "[(1 :: nat, Iface (10 :: nat))] \<noteq> []" by simp
  have d: "(1, Iface 10) \<in> set [(1 :: nat, Iface (10 :: nat))]" by simp
  have "panic_of (exec ?c ?s0) = None" by (simp add: run_defs)
  then have "exec ?c ?s0 = Returns () ?s1" by (rule returns_state)
  with inside_start have e: "inside 0 1 ?s0 ?s1" by (rule inside_step)
  have o: "observed ?s1 = [(0, 1, Iface 10, True)]" by (simp add: run_defs)
  note t = SetValues_visible [OF a b c d e]
  note t2 = t [THEN conjunct2, THEN conjunct1]
  note t3 = t [THEN conjunct2, THEN conjunct2, THEN conjunct1, rule_format]
  note t4 = t [THEN conjunct2, THEN conjunct2, THEN conjunct2, rule_format]
  have n: "GetValue 0 1 (callback_state 0 [(1, Iface 20)] ?s1) = (Iface 20, True)"
    by (rule t3 [where ?B2.0 = "[(1, Iface 20)]"]) (intro conjI, simp, simp, rule inside_start)
  have r: "GetValue 0 1 (state_of (SetValues 0 [(1, Iface 20)] (execs []) ?s1)) = (Iface 10, True)"
    by (rule t4) simp
  from t2 n r a b d e o show ?thesis by blast
qed

section \<open>The low-level pair\<close>

lemma unat_less_length:
  fixes g :: u32
  assumes "uint g < int n"
  shows "unat g < n"
proof -
  from assms have "int (unat g) < int n" by simp
  then show ?thesis by (simp only: of_nat_less_iff)
qed

lemma extend_length: "length (globalMaps s) \<le> length (globalMaps (extend goID s))"
  by (simp add: extend_def Let_def)

lemma wrap_index:
  assumes "slots_inv s"
  shows "unat goID
         < length (globalMaps (if goID \<ge> word_of_int (curMaxGoroutineCount s)
                               then extend goID s else s))"
proof (cases "curMaxGoroutineCount s < 2 ^ 32")
  case False
  have "unat goID < 2 ^ 32" using unsigned_less [of goID] by simp
  moreover have "2 ^ 32 \<le> length (globalMaps s)"
    using False assms by (simp add: slots_inv_def)
  ultimately have "unat goID < length (globalMaps s)" by linarith
  then show ?thesis using extend_length [of s goID] by auto
next
  case True
  let ?c = "curMaxGoroutineCount s"
  have c: "1024 \<le> ?c" "int (length (globalMaps s)) = ?c"
    using assms by (simp_all add: slots_inv_def initialMaxGoroutineCount_def)
  have w: "uint (word_of_int ?c :: u32) = ?c"
    using c True by (simp add: uint_word_of_int)
  show ?thesis
  proof (cases "?c \<le> uint goID")
    case le: True
    then have ge: "word_of_int ?c \<le> goID" using w by (simp add: word_le_def)
    have "int (length (globalMaps (extend goID s))) = (uint goID div 128 + 1) * 128"
      using assms True le by (rule extend_grows(2))
    moreover have "uint goID < (uint goID div 128 + 1) * 128" by (rule smallest_multiple(2))
    ultimately have "uint goID < int (length (globalMaps (extend goID s)))" by simp
    then have "unat goID < length (globalMaps (extend goID s))"
      by (rule unat_less_length)
    then show ?thesis using ge by simp
  next
    case False
    then have "\<not> word_of_int ?c \<le> goID" using w by (simp add: word_le_def)
    moreover have "uint goID < int (length (globalMaps s))"
      using False c(2) by simp
    then have "unat goID < length (globalMaps s)" by (rule unat_less_length)
    ultimately show ?thesis by simp
  qed
qed

lemma WrapWithGLS_gls:
  assumes "gls_state s = Some s'"
  shows "\<exists>d. \<forall>f. WrapWithGLS f s = deferred d (f s')"
proof (cases "gid s")
  case (Some g)
  have d: "deferred id r = r" for r :: "(unit, ('a, 'b) state) result"
    by (cases r) (simp_all add: deferred_def)
  have "WrapWithGLS f s = deferred id (f s')" for f
    using assms Some
    by (simp add: gls_state_def ensured_def WrapWithGLS_def EnsureGoroutineId_def
        GetGoroutineId_def WrapWithGLS_body_def Let_def d split: if_splits)
  then show ?thesis by blast
next
  case None
  obtain g p' where a: "Acquire (pool s) = (g, p')" by (cases "Acquire (pool s)")
  have "WrapWithGLS f s = deferred (release_gid g) (f s')" for f
    using assms None a
    by (simp add: gls_state_def ensured_def WrapWithGLS_def EnsureGoroutineId_def
        GetGoroutineId_def WrapWithGLS_body_def Let_def split: if_splits)
  then show ?thesis by blast
qed

text \<open>
  Claim C8. From every state of the slot array that the code can reach, \<open>WrapWithGLS f\<close>
  invokes \<open>f\<close> once, in a state \<open>s'\<close> in which the goroutine's slot is a new empty map:
  \<open>Get\<close> returns the nil value and no error for every key, whatever the slot held before.
\<close>

theorem WrapWithGLS_fresh_slot:
  assumes "slots_inv s"
  shows "\<exists>s'. gls_state s = Some s'
            \<and> (\<exists>d. \<forall>f. WrapWithGLS f s = deferred d (f s'))
            \<and> (\<forall>key. Get key s' = Returns (IfaceNil, None) s')"
proof -
  obtain g s1 where e: "ensured s = (g, s1)" by (cases "ensured s")
  have f: "globalMaps s1 = globalMaps s" "curMaxGoroutineCount s1 = curMaxGoroutineCount s"
    and g1: "gid s1 = Some g"
    using e by (auto simp: ensured_def split: option.splits prod.splits)
  have inv1: "slots_inv s1" using assms f by (simp add: slots_inv_def)
  define s2 where
    "s2 = (if g \<ge> word_of_int (curMaxGoroutineCount s1) then extend g s1 else s1)"
  have idx: "unat g < length (globalMaps s2)"
    unfolding s2_def using inv1 by (rule wrap_index)
  have g2: "gid s2 = Some g" using g1 by (simp add: s2_def extend_def Let_def)
  define s' where "s' = s2\<lparr>globalMaps := (globalMaps s2)[unat g := Some []]\<rparr>"
  have st: "gls_state s = Some s'"
    using idx by (simp add: gls_state_def e Let_def s2_def [symmetric] s'_def)
  have "Get key s' = Returns (IfaceNil, None) s'" for key
    using idx g2 by (simp add: Get_def getGLS_def GetGoroutineId_def s'_def)
  with st WrapWithGLS_gls [OF st] show ?thesis by blast
qed

lemmas gls_defs =
  WrapWithGLS_def WrapWithGLS_body_def extend_def extendUnit_def gls_state_def Set_def Get_def
  getGLS_def gls_ready_def value_of_def

lemma stale_state_eq:
  "stale_state = init_state\<lparr>pool := \<lparr>queue = [0], curID = 1\<rparr>,
      globalMaps := (replicate 1024 None)[0 := Some [(''k'', Iface 7)]]\<rparr>"
  by (simp add: stale_state_def run_defs gls_defs)

lemma wrapped_state_eq:
  "wrapped_state = init_state\<lparr>pool := \<lparr>queue = [], curID = 1\<rparr>, gid := Some 0,
      globalMaps := (replicate 1024 None)[0 := Some []]\<rparr>"
  by (simp add: wrapped_state_def run_defs gls_defs)

text \<open>
  The second holder of identity \<open>0\<close>: the slot holds key \<open>"k"\<close> of the first holder before
  \<open>WrapWithGLS\<close>, and \<open>Get "k"\<close> finds nothing when the callback starts.
\<close>

theorem WrapWithGLS_fresh_slot_witness:
  "slots_inv stale_state
   \<and> queue (pool stale_state) = [0]
   \<and> globalMaps stale_state ! 0 = Some [(''k'', Iface 7)]
   \<and> map_option gid (gls_state stale_state) = Some (Some 0)
   \<and> (\<exists>s'. gls_state stale_state = Some s' \<and> Get ''k'' s' = Returns (IfaceNil, None) s')"
proof -
  have a: "slots_inv stale_state"
    by (simp add: stale_state_eq slots_inv_def init_state_def initialMaxGoroutineCount_def
        extendUnit_def)
  have b: "queue (pool stale_state) = [0]"
    "globalMaps stale_state ! 0 = Some [(''k'', Iface 7)]"
    by (simp_all add: stale_state_eq init_state_def)
  have c: "map_option gid (gls_state stale_state) = Some (Some 0)"
    by (simp add: stale_state_eq run_defs gls_defs)
  from WrapWithGLS_fresh_slot [OF a] a b c show ?thesis by blast
qed

subsection \<open>Errors of \<open>Set\<close> and \<open>Get\<close>\<close>

lemma Set_NotEnabled: "value_of (Set key val s) = Some (Some NotEnabled) \<longleftrightarrow> gid s = None"
  by (simp add: Set_def getGLS_def GetGoroutineId_def value_of_def split: option.splits)

lemma Get_NotEnabled:
  "map_option snd (value_of (Get key s)) = Some (Some NotEnabled) \<longleftrightarrow> gid s = None"
  by (simp add: Get_def getGLS_def GetGoroutineId_def value_of_def split: option.splits)

lemma ready_succeeds:
  assumes "gls_ready s"
  shows "value_of (Set key val s) = Some None"
    and "map_option snd (value_of (Get key s)) = Some None"
  using assms
  by (auto simp: gls_ready_def Set_def Get_def getGLS_def GetGoroutineId_def value_of_def
      split: option.splits)

text \<open>
  Claim C5, as amended. \<open>Set\<close> and \<open>Get\<close> return the \<open>NotEnabled\<close> error if and only if the
  goroutine has no identity; when it has an identity and its entry of \<^verbatim>\<open>globalMaps\<close> holds
  a map, as inside \<open>WrapWithGLS\<close>, both return with a nil error.
\<close>

theorem Set_Get_NotEnabled:
  "(value_of (Set key val s) = Some (Some NotEnabled) \<longleftrightarrow> gid s = None)
   \<and> (map_option snd (value_of (Get key s)) = Some (Some NotEnabled) \<longleftrightarrow> gid s = None)
   \<and> (gls_ready s \<longrightarrow>
         value_of (Set key val s) = Some None
       \<and> map_option snd (value_of (Get key s)) = Some None)"
  using Set_NotEnabled Get_NotEnabled ready_succeeds by blast

text \<open>Outside any scope, and inside \<open>WrapWithGLS\<close>.\<close>

theorem Set_Get_NotEnabled_witness:
  "value_of (Set ''a'' (Iface 1) (init_state :: (nat, nat) state)) = Some (Some NotEnabled)
   \<and> gls_ready wrapped_state
   \<and> value_of (Set ''a'' (Iface 1) wrapped_state) = Some None
   \<and> map_option snd (value_of (Get ''a'' wrapped_state)) = Some None"
proof -
  have r: "gls_ready wrapped_state"
    by (simp add: wrapped_state_eq gls_ready_def init_state_def)
  have g: "gid (init_state :: (nat, nat) state) = None" by (simp add: init_state_def)
  from Set_Get_NotEnabled [of "''a''" "Iface 1" "init_state :: (nat, nat) state"] g
    Set_Get_NotEnabled [of "''a''" "Iface 1" wrapped_state] r
  show ?thesis by simp
qed

text \<open>
  Claim C5 as stated fails inside a \<open>SetValues\<close> scope that is not inside \<open>WrapWithGLS\<close>: the
  goroutine has identity \<open>0\<close>, its entry of \<^verbatim>\<open>globalMaps\<close> is the nil map, and \<open>Set\<close> panics on
  the assignment instead of returning.
\<close>

theorem Set_panics_without_slot:
  "gid scope_state = Some 0
   \<and> panic_of (Set ''a'' (Iface 1) scope_state) = Some NilMapWrite
   \<and> panic_of (SetValues 0 [(1, Iface 10)] (execs [CSet ''a'' (Iface 1)])
        (init_state :: (nat, nat) state)) = Some NilMapWrite"
  by (simp add: scope_state_def run_defs gls_defs)

subsection \<open>Absent keys\<close>

text \<open>
  Claim C6, as amended. \<open>GetValue\<close> signals an absent key by \<open>found = False\<close> with the nil
  value (it has no error result): so it does when the goroutine has no slot in the manager
  and when the slot does not hold the key. \<open>Get\<close> has no such flag: without an identity it
  returns the \<open>NotEnabled\<close> error; with an initialised slot it returns the nil value and a nil
  error for a key that was never set, as it does for a key set to nil.
\<close>

theorem absent_key_results:
  "(getValues m s = None \<longrightarrow> GetValue m k s = (IfaceNil, False))
   \<and> (\<forall>r. getValues m s = Some r \<and> map_of (cells s r) k = None
          \<longrightarrow> GetValue m k s = (IfaceNil, False))
   \<and> (gid s = None \<longrightarrow> Get key s = Returns (IfaceNil, Some NotEnabled) s)
   \<and> (\<forall>g c. gid s = Some g \<and> unat g < length (globalMaps s)
            \<and> globalMaps s ! unat g = Some c
            \<and> (map_of c key = None \<or> map_of c key = Some IfaceNil)
          \<longrightarrow> Get key s = Returns (IfaceNil, None) s)"
  by (auto simp: getValues_def GetValue_def Get_def getGLS_def GetGoroutineId_def
      split: option.splits)

text \<open>
  No scope at all; key \<open>2\<close> inside a scope that binds key \<open>1\<close>; \<open>Get\<close> inside \<open>WrapWithGLS\<close>
  before and after \<open>Set("k", nil)\<close>.
\<close>

theorem absent_key_results_witness:
  "GetValue 0 1 (init_state :: (nat, nat) state) = (IfaceNil, False)
   \<and> GetValue 0 2 scope_state = (IfaceNil, False)
   \<and> Get ''k'' wrapped_state = Returns (IfaceNil, None) wrapped_state
   \<and> Get ''k'' (state_of (Set ''k'' IfaceNil wrapped_state))
       = Returns (IfaceNil, None) (state_of (Set ''k'' IfaceNil wrapped_state))"
proof -
  let ?s2 = "state_of (Set ''k'' IfaceNil wrapped_state)"
  have a: "getValues 0 (init_state :: (nat, nat) state) = None"
    by (simp add: run_defs)
  have b: "getValues 0 scope_state = Some 0 \<and> map_of (cells scope_state 0) 2 = None"
    by (simp add: scope_state_def run_defs)
  have c: "gid wrapped_state = Some 0 \<and> unat (0 :: u32) < length (globalMaps wrapped_state)
      \<and> globalMaps wrapped_state ! unat (0 :: u32) = Some []
      \<and> (map_of [] ''k'' = (None :: nat iface option)
          \<or> map_of [] ''k'' = Some (IfaceNil :: nat iface))"
    by (simp add: wrapped_state_eq init_state_def)
  have d: "gid ?s2 = Some 0 \<and> unat (0 :: u32) < length (globalMaps ?s2)
      \<and> globalMaps ?s2 ! unat (0 :: u32) = Some [(''k'', IfaceNil)]
      \<and> (map_of [(''k'', IfaceNil :: nat iface)] ''k'' = None
          \<or> map_of [(''k'', IfaceNil :: nat iface)] ''k'' = Some IfaceNil)"
    by (simp add: wrapped_state_eq init_state_def Set_def getGLS_def GetGoroutineId_def)
  note t0 = absent_key_results [of 0 "init_state :: (nat, nat) state" 1 "''k''"]
  note t1 = absent_key_results [of 0 scope_state 2 "''k''"]
  note t2 = absent_key_results [of 0 wrapped_state 1 "''k''"]
  note t3 = absent_key_results [of 0 ?s2 1 "''k''"]
  have "GetValue 0 1 (init_state :: (nat, nat) state) = (IfaceNil, False)"
    using t0 a by blast
  moreover have "GetValue 0 2 scope_state = (IfaceNil, False)"
    using t1 b by blast
  moreover have "Get ''k'' wrapped_state = Returns (IfaceNil, None) wrapped_state"
    using t2 c by blast
  moreover have "Get ''k'' ?s2 = Returns (IfaceNil, None) ?s2"
    using t3 d by blast
  ultimately show ?thesis by blast
qed

text \<open>
  Claim C6 as stated fails for \<open>Get\<close> outside any scope: key \<open>"k"\<close> was never set, and \<open>Get\<close>
  reports the \<open>NotEnabled\<close> error.
\<close>

theorem Get_reports_NotEnabled:
  "Get ''k'' (init_state :: (nat, nat) state) = Returns (IfaceNil, Some NotEnabled) init_state"
  by (simp add: Get_def getGLS_def GetGoroutineId_def init_state_def)

section \<open>The invariants hold in every state a callback can reach\<close>

text \<open>
  The initial state satisfies \<open>slots_inv\<close> and \<open>heap_ok\<close>, and every callback keeps them, so
  the hypotheses of the theorems above hold wherever the package's own operations lead.
\<close>

lemma slots_inv_init: "slots_inv (init_state :: ('k, 'v) state)"
  by (simp add: slots_inv_def init_state_def initialMaxGoroutineCount_def extendUnit_def)

lemma chunk_dvd:
  fixes x :: u32
  shows "128 dvd uint (x * 128)"
proof -
  have "uint (x * 128) = uint x * 128 mod 2 ^ 32"
    by (simp add: uint_word_ariths)
  moreover have "(128 :: int) dvd uint x * 128" by simp
  moreover have "(128 :: int) dvd 2 ^ 32" by simp
  ultimately show ?thesis by (simp only: dvd_mod)
qed

lemma slots_inv_extend:
  assumes "slots_inv s"
  shows "slots_inv (extend goID s)"
proof (cases "goID \<ge> word_of_int (curMaxGoroutineCount s)")
  case False
  then show ?thesis using assms by (simp add: extend_def)
next
  case True
  define x :: u32 where
    "x = (goID - word_of_int (curMaxGoroutineCount s)) div 128 + 1"
  have e: "extend goID s = s\<lparr>globalMaps := globalMaps s @ replicate (unat (x * 128)) None,
             curMaxGoroutineCount := curMaxGoroutineCount s + uint (x * 128)\<rparr>"
    using True by (simp add: extend_def Let_def x_def extendUnit_def)
  have d: "128 dvd uint (x * 128)" by (rule chunk_dvd)
  have l: "int (unat (x * 128)) = uint (x * 128)" by simp
  from assms have a: "int (length (globalMaps s)) = curMaxGoroutineCount s"
    and b: "128 dvd curMaxGoroutineCount s" and c: "1024 \<le> curMaxGoroutineCount s"
    by (simp_all add: slots_inv_def extendUnit_def initialMaxGoroutineCount_def)
  have "int (length (globalMaps (extend goID s))) = curMaxGoroutineCount (extend goID s)"
    unfolding e using a l by simp
  moreover have "128 dvd curMaxGoroutineCount (extend goID s)"
    unfolding e using b d by simp
  moreover have "1024 \<le> curMaxGoroutineCount s + uint (x * 128)"
    using c by (simp add: add_increasing2)
  then have "1024 \<le> curMaxGoroutineCount (extend goID s)"
    unfolding e by simp
  ultimately show ?thesis
    by (simp add: slots_inv_def extendUnit_def initialMaxGoroutineCount_def)
qed


lemma slots_inv_same:
  "slots_inv s \<Longrightarrow> length (globalMaps s') = length (globalMaps s)
   \<Longrightarrow> curMaxGoroutineCount s' = curMaxGoroutineCount s \<Longrightarrow> slots_inv s'"
  by (simp add: slots_inv_def)

lemma bind_slots:
  "length (globalMaps (snd (SetValues_bind m g B s))) = length (globalMaps s)"
  "curMaxGoroutineCount (snd (SetValues_bind m g B s)) = curMaxGoroutineCount s"
  by (simp_all add: SetValues_bind_def Let_def case_prod_beta)

lemma restore_slots:
  "length (globalMaps (SetValues_restore m g fr s)) = length (globalMaps s)"
  "curMaxGoroutineCount (SetValues_restore m g fr s) = curMaxGoroutineCount s"
  by (simp_all add: SetValues_restore_def case_prod_beta)

lemma EnsureGoroutineId_slots:
  assumes cb: "\<And>g s1. slots_inv s1 \<Longrightarrow> slots_inv (state_of (cb g s1))" and inv: "slots_inv s"
  shows "slots_inv (state_of (EnsureGoroutineId cb s))"
proof (cases "gid s")
  case (Some g)
  then show ?thesis using cb [OF inv] by (simp add: EnsureGoroutineId_def GetGoroutineId_def)
next
  case None
  obtain g p' where a: "Acquire (pool s) = (g, p')" by (cases "Acquire (pool s)")
  define s1 where "s1 = s\<lparr>pool := p', gid := Some g\<rparr>"
  have "slots_inv s1" using inv by (rule slots_inv_same) (simp_all add: s1_def)
  then have "slots_inv (state_of (cb g s1))" by (rule cb)
  then have "slots_inv (release_gid g (state_of (cb g s1)))"
    by (rule slots_inv_same) (simp_all add: release_gid_def)
  then show ?thesis using None a
    by (simp add: EnsureGoroutineId_def GetGoroutineId_def s1_def)
qed

lemma SetValues_slots:
  assumes "slots_kept C"
  shows "slots_kept (SetValues m B C)"
  unfolding slots_kept_def
proof (intro allI impI)
  fix s :: "('a, 'b) state" assume inv: "slots_inv s"
  have body: "slots_inv (state_of (SetValues_body m B C g s1))" if "slots_inv s1" for g s1
  proof -
    have "slots_inv (snd (SetValues_bind m g B s1))"
      using that by (rule slots_inv_same) (simp_all add: bind_slots)
    with assms have "slots_inv (state_of (C (snd (SetValues_bind m g B s1))))"
      by (simp add: slots_kept_def)
    then have "slots_inv (SetValues_restore m g (fst (SetValues_bind m g B s1))
        (state_of (C (snd (SetValues_bind m g B s1)))))"
      by (rule slots_inv_same) (simp_all add: restore_slots)
    then show ?thesis by (simp add: SetValues_body_def case_prod_beta)
  qed
  show "slots_inv (state_of (SetValues m B C s))"
  proof (cases "B = []")
    case True
    then show ?thesis using assms inv by (simp add: SetValues_def slots_kept_def)
  next
    case False
    then show ?thesis
      using EnsureGoroutineId_slots [of "SetValues_body m B C" s, OF body inv]
      by (simp add: SetValues_def)
  qed
qed

lemma WrapWithGLS_slots:
  assumes "slots_kept f"
  shows "slots_kept (WrapWithGLS f)"
  unfolding slots_kept_def
proof (intro allI impI)
  fix s :: "('a, 'b) state" assume inv: "slots_inv s"
  have body: "slots_inv (state_of (WrapWithGLS_body f g s1))" if i1: "slots_inv s1" for g s1
  proof -
    define s2 where
      "s2 = (if g \<ge> word_of_int (curMaxGoroutineCount s1) then extend g s1 else s1)"
    have i2: "slots_inv s2" using i1 by (simp add: s2_def slots_inv_extend)
    show ?thesis
    proof (cases "unat g < length (globalMaps s2)")
      case True
      have "slots_inv (s2\<lparr>globalMaps := (globalMaps s2)[unat g := Some []]\<rparr>)"
        using i2 by (rule slots_inv_same) simp_all
      with assms have "slots_inv (state_of (f (s2\<lparr>globalMaps := (globalMaps s2)[unat g := Some []]\<rparr>)))"
        by (simp add: slots_kept_def)
      then show ?thesis using True
        by (simp add: WrapWithGLS_body_def Let_def s2_def [symmetric])
    next
      case False
      then show ?thesis using i2
        by (simp add: WrapWithGLS_body_def Let_def s2_def [symmetric])
    qed
  qed
  show "slots_inv (state_of (WrapWithGLS f s))"
    using EnsureGoroutineId_slots [of "WrapWithGLS_body f" s, OF body inv]
    by (simp add: WrapWithGLS_def)
qed

lemma Set_slots: "slots_inv s \<Longrightarrow> slots_inv (state_of (Set key val s))"
  by (auto simp: Set_def getGLS_def GetGoroutineId_def slots_inv_def split: option.splits)

lemma Get_slots: "slots_inv s \<Longrightarrow> slots_inv (state_of (Get key s))"
  by (auto simp: Get_def getGLS_def GetGoroutineId_def split: option.splits)

lemma execs_slots:
  "(\<And>c. c \<in> set cs \<Longrightarrow> slots_kept (exec c)) \<Longrightarrow> slots_kept (execs cs)"
proof (induction cs)
  case Nil
  then show ?case by (simp add: slots_kept_def)
next
  case (Cons c cs)
  have c: "slots_kept (exec c)" and cs: "slots_kept (execs cs)"
    using Cons by simp_all
  show ?case
    unfolding slots_kept_def
  proof (intro allI impI)
    fix s :: "('a, 'b) state" assume inv: "slots_inv s"
    from c inv have i1: "slots_inv (state_of (exec c s))" by (simp add: slots_kept_def)
    show "slots_inv (state_of (execs (c # cs) s))"
    proof (cases "exec c s")
      case (Returns u s')
      with i1 have "slots_inv s'" by simp
      with cs have "slots_inv (state_of (execs cs s'))" by (simp add: slots_kept_def)
      then show ?thesis using Returns by (simp add: then_do_def)
    next
      case (Panics p s')
      with i1 show ?thesis by (simp add: then_do_def)
    qed
  qed
qed

lemma exec_slots: "slots_kept (exec c)"
proof (induction c)
  case (CSetValues m B body)
  then have "slots_kept (execs body)" by (simp add: execs_slots)
  then show ?case by (simp add: SetValues_slots)
next
  case (CGetValue m k)
  then show ?case by (simp add: slots_kept_def slots_inv_def split: prod.splits)
next
  case (CGo body)
  then show ?case by (simp add: slots_kept_def Go_def slots_inv_def)
next
  case (CUnregister m)
  then show ?case by (simp add: slots_kept_def Unregister_def slots_inv_def)
next
  case (CWrapWithGLS body)
  then have "slots_kept (execs body)" by (simp add: execs_slots)
  then show ?case by (simp add: WrapWithGLS_slots)
next
  case (CSet key val)
  then show ?case by (simp add: slots_kept_def Set_slots)
next
  case (CGet key)
  then show ?case by (simp add: slots_kept_def Get_slots)
next
  case CPanic
  then show ?case by (simp add: slots_kept_def)
next
  case (CRecover body)
  then have "slots_kept (execs body)" by (simp add: execs_slots)
  then show ?case by (simp add: slots_kept_def)
qed

lemma reachable_invariants:
  "slots_inv (state_of (execs body (init_state :: ('k, 'v) state)))"
  "heap_ok (state_of (execs body (init_state :: ('k, 'v) state)))"
proof -
  have "slots_kept (execs body :: ('k, 'v) state \<Rightarrow> _)"
    by (simp add: execs_slots exec_slots)
  then show "slots_inv (state_of (execs body (init_state :: ('k, 'v) state)))"
    using slots_inv_init unfolding slots_kept_def by blast
  have "frame init_state (state_of (execs body (init_state :: ('k, 'v) state)))"
    using execs_body_neutral [of body] heap_ok_init by (auto simp: neutral_def)
  with heap_ok_init show "heap_ok (state_of (execs body (init_state :: ('k, 'v) state)))"
    by (rule frame_heap_ok)
qed

section \<open>Propagation to spawned goroutines\<close>

lemmas go_defs = Go_def run_spawned_def NewContextManager_def registered_state_def
  spawned_reads_def

text \<open>
  Claim C3 fails on the code. \<open>getValues\<close> returns the spawning goroutine's map itself, and the
  closure built by \<open>Go\<close> reads that map when the spawned goroutine starts, not when \<open>Go\<close>
  was called. At the call of \<open>Go\<close> key \<open>2\<close> is bound to \<open>20\<close> in both runs. When the spawned
  goroutine runs before the inner scope ends, it reads \<open>10\<close> and \<open>20\<close>; when it runs after the
  inner scope has restored the map, it reads \<open>10\<close> for key \<open>1\<close> and finds key \<open>2\<close> absent.
\<close>

theorem Go_shares_the_live_map:
  "GetValue 0 2 (callback_state 0 [(2, Iface 20)]
      (callback_state 0 [(1, Iface 10)] registered_state)) = (Iface 20, True)
   \<and> observed (state_of (spawn_then_run_inside registered_state))
       = [(0, 1, Iface 10, True), (0, 2, Iface 20, True)]
   \<and> observed (state_of (spawn_then_run_after registered_state))
       = [(0, 1, Iface 10, True), (0, 2, IfaceNil, False)]"
proof -
  have a: "GetValue 0 2 (callback_state 0 [(2, Iface 20)]
      (callback_state 0 [(1, Iface 10)] registered_state)) = (Iface 20, True)"
    by (simp add: run_defs go_defs)
  have b: "observed (state_of (spawn_then_run_inside registered_state))
       = [(0, 1, Iface 10, True), (0, 2, Iface 20, True)]"
    by (simp add: spawn_then_run_inside_def run_defs go_defs)
  have c: "observed (state_of (spawn_then_run_after registered_state))
       = [(0, 1, Iface 10, True), (0, 2, IfaceNil, False)]"
    by (simp add: spawn_then_run_after_def run_defs go_defs)
  from a b c show ?thesis by blast
qed

end
